theory Spec2Isabelle
  imports Main "HOL-Library.Word"
begin

section \<open>Go values used by the decoder\<close>

type_synonym byte = "8 word"

text \<open>
  Go's \<open>int\<close> on a 64-bit platform. Values are kept as mathematical integers and every
  addition and subtraction of the source is passed through \<open>wrap\<close>, the two's complement
  wrap-around of the machine.
\<close>

definition minInt :: int where
  "minInt = - (2 ^ 63)"

text \<open>
  Modelled from the spec: the constant \<open>maxInt\<close> is declared outside decoder.go; the spec
  calls it the maximum representable int.
\<close>

definition maxInt :: int where
  "maxInt = 2 ^ 63 - 1"

definition is_int :: "int \<Rightarrow> bool" where
  "is_int x \<longleftrightarrow> minInt \<le> x \<and> x \<le> maxInt"

definition wrap :: "int \<Rightarrow> int" where
  "wrap x = (x + 2 ^ 63) mod 2 ^ 64 - 2 ^ 63"

text \<open>The error values that reach the decoder: those of io and bufio, and its own.\<close>

datatype error =
    io_EOF
  | io_ErrUnexpectedEOF
  | bufio_ErrNegativeCount
  | bufio_ErrBufferFull
  | errFillOverflow
  | IOError string

text \<open>A call either panics or returns.\<close>

datatype 'a outcome = Panic string | Done 'a

definition panics :: "'a outcome \<Rightarrow> bool" where
  "panics x = (case x of Panic p \<Rightarrow> True | Done y \<Rightarrow> False)"

section \<open>The byte stream and its buffered reader\<close>

text \<open>
  The underlying io.Reader: the bytes it has still to deliver, the error it reports once
  they are gone (io.EOF for a stream that ends cleanly), and the sizes of its coming
  short reads. A Read into a destination of \<open>c\<close> bytes delivers the next bytes that fit,
  or fewer when the next read is a short one (at least one byte); once the list of short
  reads is used up, every read delivers all that fits.
\<close>

record source =
  pending :: "byte list"
  final :: error
  burst :: "nat list"

definition read_size :: "nat \<Rightarrow> source \<Rightarrow> nat" where
  "read_size c s = (case burst s of [] \<Rightarrow> c | x # _ \<Rightarrow> min c (max 1 x))"

definition src_Read :: "nat \<Rightarrow> source \<Rightarrow> byte list \<times> error option \<times> source" where
  "src_Read c s =
     (if pending s = [] then ([], Some (final s), s)
      else (take (read_size c s) (pending s), None,
            s\<lparr>pending := drop (read_size c s) (pending s), burst := tl (burst s)\<rparr>))"

lemma read_size_le: "read_size c s \<le> c"
  by (simp add: read_size_def split: list.splits)

lemma read_size_pos: "0 < c \<Longrightarrow> 0 < read_size c s"
  by (auto simp: read_size_def max_def split: list.splits)

text \<open>
  bufio.Reader of the Go library, with its array \<open>buf\<close>, its read and write indices
  \<open>r\<close> and \<open>w\<close>, its pending error and the wrapped reader. The decoder's field \<open>r\<close>
  is the very reader its \<open>br\<close> wraps (NewDecoderSize and Reset bind both to the same
  object), so the stream is kept once, in \<open>b_rd\<close>.
\<close>

record bufio_Reader =
  b_buf :: "byte list"
  b_r :: nat
  b_w :: nat
  b_err :: "error option"
  b_rd :: source

text \<open>A Go slice of the reader's array: an offset and a length, not a copy.\<close>

datatype slice = Slice (s_off: nat) (s_len: nat)

definition bytes_of :: "bufio_Reader \<Rightarrow> slice \<Rightarrow> byte list" where
  "bytes_of b sl = take (s_len sl) (drop (s_off sl) (b_buf b))"

text \<open>The number of buffered bytes, \<open>w - r\<close>; bufio keeps \<open>r \<le> w\<close>.\<close>

definition Buffered :: "bufio_Reader \<Rightarrow> int" where
  "Buffered b = int (b_w b - b_r b)"

definition readErr :: "bufio_Reader \<Rightarrow> error option \<times> bufio_Reader" where
  "readErr b = (b_err b, b\<lparr>b_err := None\<rparr>)"

text \<open>
  bufio's fill: slide the buffered bytes to the front of the array, then read once into
  the free tail. (The library retries a read that returns no byte and no error; a
  \<open>source\<close> never does that. Its callers never fill a full buffer.)
\<close>

definition b_fill :: "bufio_Reader \<Rightarrow> bufio_Reader" where
  "b_fill b =
     (let n = b_w b - b_r b;
          slid = take n (drop (b_r b) (b_buf b)) @ drop n (b_buf b);
          (xs, e, rd') = src_Read (length (b_buf b) - n) (b_rd b)
      in b\<lparr>b_buf := take n slid @ xs @ drop (n + length xs) slid,
            b_r := 0,
            b_w := n + length xs,
            b_err := (case e of None \<Rightarrow> b_err b | Some x \<Rightarrow> Some x),
            b_rd := rd'\<rparr>)"

lemma b_fill_decreases:
  assumes "Buffered b < int (length (b_buf b))" and "b_err b = None"
  shows "length (pending (b_rd (b_fill b))) + (if b_err (b_fill b) = None then 1 else 0)
         < length (pending (b_rd b)) + 1"
proof (cases "pending (b_rd b) = []")
  case True
  then show ?thesis
    by (simp add: b_fill_def src_Read_def Let_def)
next
  case False
  then have p: "0 < length (pending (b_rd b))"
    by simp
  from assms(1) have c: "b_w b - b_r b < length (b_buf b)"
    unfolding Buffered_def by simp
  have "length (pending (b_rd (b_fill b)))
        = length (pending (b_rd b)) - read_size (length (b_buf b) - (b_w b - b_r b)) (b_rd b)"
    using False by (simp add: b_fill_def src_Read_def Let_def)
  moreover have "b_err (b_fill b) = None"
    using False assms(2) by (simp add: b_fill_def src_Read_def Let_def)
  moreover have "length (pending (b_rd b))
        - read_size (length (b_buf b) - (b_w b - b_r b)) (b_rd b)
        < length (pending (b_rd b))"
    by (rule diff_less) (use p c in \<open>simp_all add: read_size_pos\<close>)
  ultimately show ?thesis
    by simp
qed

text \<open>Peek's loop: fill until \<open>n\<close> bytes are buffered, the array is full or a read fails.\<close>

function peek_loop :: "int \<Rightarrow> bufio_Reader \<Rightarrow> bufio_Reader" where
  "peek_loop n b =
     (if Buffered b < n \<and> Buffered b < int (length (b_buf b)) \<and> b_err b = None
      then peek_loop n (b_fill b) else b)"
  by pat_completeness auto
termination
proof (relation "measure (\<lambda>(n, b). length (pending (b_rd b)) + (if b_err b = None then 1 else 0))")
  show "wf (measure (\<lambda>(n, b). length (pending (b_rd b)) + (if b_err b = None then 1 else 0)))"
    by simp
next
  fix n b
  assume "Buffered b < n \<and> Buffered b < int (length (b_buf b)) \<and> b_err b = None"
  then show "((n, b_fill b), (n, b))
      \<in> measure (\<lambda>(n, b). length (pending (b_rd b)) + (if b_err b = None then 1 else 0))"
    using b_fill_decreases [of b] by simp
qed

declare peek_loop.simps [simp del]

definition Peek :: "int \<Rightarrow> bufio_Reader \<Rightarrow> (slice \<times> error option) \<times> bufio_Reader" where
  "Peek n b =
     (if n < 0 then ((Slice 0 0, Some bufio_ErrNegativeCount), b)
      else
        let b1 = peek_loop n b in
        if n > int (length (b_buf b1))
        then ((Slice (b_r b1) (b_w b1 - b_r b1), Some bufio_ErrBufferFull), b1)
        else if Buffered b1 < n
        then (let (e, b2) = readErr b1
              in ((Slice (b_r b2) (b_w b2 - b_r b2),
                   Some (case e of None \<Rightarrow> bufio_ErrBufferFull | Some x \<Rightarrow> x)), b2))
        else ((Slice (b_r b1) (nat n), None), b1))"

text \<open>
  bufio's Read into a destination of \<open>k\<close> bytes; the bytes read are not kept, only their
  number. (The library tests \<open>r == w\<close> for an empty buffer; \<open>r\<close> never passes \<open>w\<close>.)
\<close>

definition b_Read :: "nat \<Rightarrow> bufio_Reader \<Rightarrow> (nat \<times> error option) \<times> bufio_Reader" where
  "b_Read k b =
     (if k = 0 then
        (if 0 < Buffered b then ((0, None), b)
         else (let (e, b') = readErr b in ((0, e), b')))
      else if b_w b \<le> b_r b then
        (if b_err b \<noteq> None then (let (e, b') = readErr b in ((0, e), b'))
         else if length (b_buf b) \<le> k then
           (let (xs, e, rd') = src_Read k (b_rd b)
            in ((length xs, e), b\<lparr>b_rd := rd'\<rparr>))
         else
           (let (xs, e, rd') = src_Read (length (b_buf b)) (b_rd b);
                b1 = b\<lparr>b_buf := xs @ drop (length xs) (b_buf b),
                       b_r := 0, b_w := 0, b_err := e, b_rd := rd'\<rparr>
            in if xs = [] then (let (e', b2) = readErr b1 in ((0, e'), b2))
               else (let n = min k (length xs)
                     in ((n, None), b1\<lparr>b_r := n, b_w := length xs\<rparr>))))
      else
        (let n = min k (b_w b - b_r b)
         in ((n, None), b\<lparr>b_r := b_r b + n\<rparr>)))"

lemma src_Read_progress:
  assumes "src_Read c s = (xs, None, s')" and "0 < c"
  shows "xs \<noteq> []" and "length xs \<le> c"
proof -
  from assms(1) have p: "pending s \<noteq> []" and xs: "xs = take (read_size c s) (pending s)"
    by (auto simp: src_Read_def split: if_splits)
  from p xs read_size_pos [OF assms(2), of s] show "xs \<noteq> []"
    by (cases "pending s") auto
  from xs read_size_le [of c s] show "length xs \<le> c"
    by simp
qed

lemma b_Read_progress:
  assumes "b_Read k b = ((n, None), b')" and "0 < k"
  shows "0 < n \<and> n \<le> k"
proof (cases "b_w b \<le> b_r b")
  case False
  with assms show ?thesis
    by (auto simp: b_Read_def Let_def)
next
  case True
  show ?thesis
  proof (cases "b_err b")
    case (Some x)
    with True assms show ?thesis
      by (simp add: b_Read_def readErr_def)
  next
    case None
    show ?thesis
    proof (cases "length (b_buf b) \<le> k")
      case large: True
      obtain xs e rd' where r: "src_Read k (b_rd b) = (xs, e, rd')"
        by (metis prod_cases3)
      with True None large assms have "n = length xs" and "e = None"
        by (simp_all add: b_Read_def)
      with r src_Read_progress [of k "b_rd b" xs rd'] assms(2) show ?thesis
        by simp
    next
      case small: False
      obtain xs e rd' where r: "src_Read (length (b_buf b)) (b_rd b) = (xs, e, rd')"
        by (metis prod_cases3)
      show ?thesis
      proof (cases "xs = []")
        case empty: True
        with r True None small assms have "e = None"
          by (simp add: b_Read_def readErr_def)
        moreover from small have "b_buf b \<noteq> []"
          by auto
        ultimately show ?thesis
          using r src_Read_progress(1) [of "length (b_buf b)" "b_rd b" xs rd'] empty
          by simp
      next
        case False
        with r True None small assms have "n = min k (length xs)"
          by (simp add: b_Read_def Let_def)
        with False assms(2) show ?thesis
          by simp
      qed
    qed
  qed
qed

text \<open>
  io.Copy(ioutil.Discard, io.LimitReader(br, N)): read through the limit into a scratch
  array of 8192 bytes until the limit is used up or a read fails; io.EOF ends the copy
  without an error.
\<close>

function copy_discard :: "int \<Rightarrow> int \<Rightarrow> bufio_Reader \<Rightarrow> (int \<times> error option) \<times> bufio_Reader" where
  "copy_discard N written b =
     (if N \<le> 0 then ((written, None), b)
      else
        (case b_Read (nat (min 8192 N)) b of
           ((n, Some e), b') \<Rightarrow>
             ((written + int n, if e = io_EOF then None else Some e), b')
         | ((n, None), b') \<Rightarrow> copy_discard (N - int n) (written + int n) b'))"
  by pat_completeness auto
termination
proof (relation "measure (\<lambda>(N, written, b). nat N)")
  show "wf (measure (\<lambda>(N, written, b). nat N))"
    by simp
next
  fix N written :: int and b x y xa and ya :: "error option"
  assume pos: "\<not> N \<le> 0" and "(x, y) = b_Read (nat (min 8192 N)) b"
    and "(xa, ya) = x" and "ya = None"
  then have "b_Read (nat (min 8192 N)) b = ((xa, None), y)"
    by simp
  with pos have "0 < xa"
    using b_Read_progress [of "nat (min 8192 N)" b xa y] by simp
  with pos show "((N - int xa, written + int xa, y), (N, written, b))
      \<in> measure (\<lambda>(N, written, b). nat N)"
    by simp
qed

declare copy_discard.simps [simp del]

text \<open>discard of decoder.go: io.CopyN(ioutil.Discard, r, n), keeping only the error.\<close>

definition discard :: "bufio_Reader \<Rightarrow> int \<Rightarrow> error option \<times> bufio_Reader" where
  "discard b n =
     (case copy_discard n 0 b of
        ((written, e), b') \<Rightarrow>
          if written = n then (None, b')
          else if written < n \<and> e = None then (Some io_EOF, b')
          else (e, b'))"

section \<open>The decoder\<close>

text \<open>
  Modelled from the spec: the interface \<open>Msg\<close> is declared outside decoder.go. Every
  message reports its byte length (\<open>nbytes\<close>, an int64); a message may also be an
  io.Reader, a streaming body that the caller reads directly from the stream, bypassing
  the window buffer. \<open>reader\<close> is then what io.Copy(ioutil.Discard, r) does with it: the
  error the copy returns and what the drain leaves of the stream.
\<close>

record Msg =
  nbytes :: int
  reader :: "(source \<Rightarrow> error option \<times> source) option"

record Decoder =
  MaxSize :: int
  br :: bufio_Reader
  start :: int
  pos :: int
  msg :: "Msg list"
  err :: "error option"

text \<open>
  The io.Reader a constructor is given: a plain stream, or a reader that is already a
  bufio.Reader. A reader that wraps a bufio.Reader reads what that reader delivers: its
  buffered bytes, then its stream.
\<close>

datatype io_Reader = Plain source | Buffered_Reader bufio_Reader

definition as_source :: "io_Reader \<Rightarrow> source" where
  "as_source rd =
     (case rd of
        Plain src \<Rightarrow> src
      | Buffered_Reader b \<Rightarrow>
          (b_rd b)\<lparr>pending := take (b_w b - b_r b) (drop (b_r b) (b_buf b)) @ pending (b_rd b)\<rparr>)"

text \<open>
  bufio.NewReaderSize: a reader that is already a bufio.Reader with an array of at least
  the size asked for is returned as it is; otherwise a new reader is made around the one
  given, with an array of the size asked for and of 16 bytes at least. bufio's Reset
  keeps the array and forgets the buffered bytes and the pending error.
\<close>

definition NewReaderSize :: "io_Reader \<Rightarrow> int \<Rightarrow> bufio_Reader" where
  "NewReaderSize rd sz =
     (case rd of
        Buffered_Reader b \<Rightarrow>
          if sz \<le> int (length (b_buf b)) then b
          else \<lparr>b_buf = replicate (nat (if sz < 16 then 16 else sz)) 0,
                b_r = 0, b_w = 0, b_err = None, b_rd = as_source rd\<rparr>
      | Plain src \<Rightarrow>
          \<lparr>b_buf = replicate (nat (if sz < 16 then 16 else sz)) 0,
           b_r = 0, b_w = 0, b_err = None, b_rd = src\<rparr>)"

definition b_Reset :: "source \<Rightarrow> bufio_Reader \<Rightarrow> bufio_Reader" where
  "b_Reset rd b = b\<lparr>b_r := 0, b_w := 0, b_err := None, b_rd := rd\<rparr>"

text \<open>
  The constants \<open>MinBufSize\<close> and \<open>DefaultBufSize\<close> are declared outside decoder.go;
  the constructors take them as their first arguments.
\<close>

definition NewDecoderSize :: "int \<Rightarrow> io_Reader \<Rightarrow> int \<Rightarrow> Decoder" where
  "NewDecoderSize MinBufSize rd bufsize =
     (let bufsize = (if bufsize < MinBufSize then MinBufSize else bufsize)
      in \<lparr>MaxSize = - 1, br = NewReaderSize rd bufsize,
          start = 0, pos = 0, msg = [], err = None\<rparr>)"

definition NewDecoder :: "int \<Rightarrow> int \<Rightarrow> io_Reader \<Rightarrow> Decoder" where
  "NewDecoder MinBufSize DefaultBufSize rd = NewDecoderSize MinBufSize rd DefaultBufSize"

definition Reset :: "source \<Rightarrow> Decoder \<Rightarrow> Decoder" where
  "Reset rd s =
     s\<lparr>MaxSize := - 1, br := b_Reset rd (br s),
       start := 0, pos := 0, msg := [], err := None\<rparr>"

definition Err :: "Decoder \<Rightarrow> error option" where
  "Err s = (if err s = Some io_EOF then None else err s)"

definition Messages :: "Decoder \<Rightarrow> Msg list" where
  "Messages s = msg s"

text \<open>The loop of exhaustReaders over the batch, with its break.\<close>

fun exhaust_loop :: "Msg list \<Rightarrow> Decoder \<Rightarrow> Decoder" where
  "exhaust_loop [] s = s"
| "exhaust_loop (m # ms) s =
     (case reader m of
        None \<Rightarrow> exhaust_loop ms s
      | Some drain \<Rightarrow>
          (case drain (b_rd (br s)) of
             (Some e, rd') \<Rightarrow> s\<lparr>br := (br s)\<lparr>b_rd := rd'\<rparr>, err := Some e\<rparr>
           | (None, rd') \<Rightarrow> exhaust_loop ms (s\<lparr>br := (br s)\<lparr>b_rd := rd'\<rparr>\<rparr>)))"

definition exhaustReaders :: "Decoder \<Rightarrow> Decoder" where
  "exhaustReaders s = exhaust_loop (msg s) s"

text \<open>The loop of dropMessages over the batch, with its break.\<close>

fun drop_loop :: "Msg list \<Rightarrow> Decoder \<Rightarrow> Decoder" where
  "drop_loop [] s = s"
| "drop_loop (m # ms) s =
     (case discard (br s) (nbytes m) of
        (Some e, b') \<Rightarrow> s\<lparr>br := b', err := Some e\<rparr>
      | (None, b') \<Rightarrow> drop_loop ms (s\<lparr>br := b'\<rparr>))"

definition dropMessages :: "Decoder \<Rightarrow> Decoder" where
  "dropMessages s = (drop_loop (msg s) s)\<lparr>msg := []\<rparr>"

definition buflen :: "Decoder \<Rightarrow> int" where
  "buflen s = wrap (Buffered (br s) - pos s)"

definition dotlen :: "Decoder \<Rightarrow> int" where
  "dotlen s = wrap (pos s - start s)"

text \<open>
  dot: the slice \<open>buf[start:]\<close> of what Peek(pos) returns. Slicing panics when \<open>start\<close>
  lies outside the peeked slice. Past its first test, dot peeks at no more than is
  buffered, and such a Peek leaves the reader as it is (\<open>Peek_within\<close> below): dot
  returns no new decoder.
\<close>

definition dot :: "Decoder \<Rightarrow> slice outcome" where
  "dot s =
     (if pos s > Buffered (br s) then Panic ''decoder position out of bounds''
      else
        (case fst (Peek (pos s) (br s)) of
           (sl, Some e) \<Rightarrow> Panic ''peek failed''
         | (sl, None) \<Rightarrow>
             if start s < 0 \<or> int (s_len sl) < start s
             then Panic ''slice bounds out of range''
             else Done (Slice (s_off sl + nat (start s)) (s_len sl - nat (start s)))))"

definition resetdot :: "Decoder \<Rightarrow> Decoder" where
  "resetdot s = s\<lparr>start := 0, pos := 0\<rparr>"

definition advance :: "int \<Rightarrow> Decoder \<Rightarrow> Decoder outcome" where
  "advance n s =
     (if buflen s < n then Panic ''advance decoder out of bounds''
      else Done (s\<lparr>pos := wrap (pos s + n)\<rparr>))"

definition shrinkdot :: "int \<Rightarrow> Decoder \<Rightarrow> Decoder outcome" where
  "shrinkdot n s =
     (if dotlen s < n then Panic ''shrink dot out of bounds''
      else Done (s\<lparr>pos := wrap (pos s - n)\<rparr>))"

definition mark :: "Decoder \<Rightarrow> Decoder" where
  "mark s = s\<lparr>start := pos s\<rparr>"

definition fill :: "int \<Rightarrow> Decoder \<Rightarrow> error option \<times> Decoder" where
  "fill n s =
     (if wrap (maxInt - n) < pos s then (Some errFillOverflow, s)
      else
        (case Peek (wrap (pos s + n)) (br s) of
           ((sl, e), b') \<Rightarrow> (e, s\<lparr>br := b'\<rparr>)))"

definition growdot :: "int \<Rightarrow> Decoder \<Rightarrow> ((slice \<times> error option) \<times> Decoder) outcome" where
  "growdot n s =
     (case fill (wrap (n - dotlen s)) s of
        (Some e, s1) \<Rightarrow> Done ((Slice 0 0, Some e), s1)
      | (None, s1) \<Rightarrow>
          (case advance (wrap (n - dotlen s1)) s1 of
             Panic p \<Rightarrow> Panic p
           | Done s2 \<Rightarrow>
               (case dot s2 of
                  Panic p \<Rightarrow> Panic p
                | Done sl \<Rightarrow> Done ((sl, None), s2))))"

text \<open>
  Next. The method fetchMessages is declared outside decoder.go; Next takes it as its
  first argument: the error it returns and the decoder it leaves.
\<close>

definition Next :: "(Decoder \<Rightarrow> error option \<times> Decoder) \<Rightarrow> Decoder \<Rightarrow> bool \<times> Decoder" where
  "Next fetchMessages s =
     (let s1 = exhaustReaders s;
          s2 = dropMessages s1;
          s3 = resetdot s2
      in if err s3 \<noteq> None then (False, s3)
         else
           (case fetchMessages s3 of
              (Some e, s4) \<Rightarrow> (False, s4)
            | (None, s4) \<Rightarrow> (True, s4)))"

section \<open>The window and the invariants\<close>

text \<open>
  The bytes the buffered reader holds, and the window: the stream as the decoder sees
  it, the buffered bytes followed by those the reader has still to deliver.
\<close>

definition buffered :: "bufio_Reader \<Rightarrow> byte list" where
  "buffered b = take (b_w b - b_r b) (drop (b_r b) (b_buf b))"

definition window :: "bufio_Reader \<Rightarrow> byte list" where
  "window b = buffered b @ pending (b_rd b)"

text \<open>
  bufio keeps \<open>r \<le> w \<le> len(buf)\<close>, and the array's length is a Go int. The spec's
  cursor invariant is \<open>0 \<le> start \<le> pos \<le> buffered length\<close>.
\<close>

definition reader_ok :: "bufio_Reader \<Rightarrow> bool" where
  "reader_ok b \<longleftrightarrow> b_r b \<le> b_w b \<and> b_w b \<le> length (b_buf b) \<and> int (length (b_buf b)) \<le> maxInt"

definition dot_ok :: "Decoder \<Rightarrow> bool" where
  "dot_ok s \<longleftrightarrow> 0 \<le> start s \<and> start s \<le> pos s \<and> pos s \<le> Buffered (br s)"

text \<open>
  The pending error of a buffered reader is the one its stream reported at its end.
\<close>

definition stream_ok :: "bufio_Reader \<Rightarrow> bool" where
  "stream_ok b \<longleftrightarrow> (b_err b = None \<or> pending (b_rd b) = [])"


text \<open>
  The readers of some messages drained one after the other, and whether each of these
  drains returns without an error; the bytes of some messages discarded one message
  after the other, and whether each of these discards returns without an error.
\<close>

fun drain_all :: "Msg list \<Rightarrow> source \<Rightarrow> source" where
  "drain_all [] rd = rd"
| "drain_all (m # ms) rd =
     (case reader m of None \<Rightarrow> drain_all ms rd | Some drain \<Rightarrow> drain_all ms (snd (drain rd)))"

fun drains_ok :: "Msg list \<Rightarrow> source \<Rightarrow> bool" where
  "drains_ok [] rd = True"
| "drains_ok (m # ms) rd =
     (case reader m of
        None \<Rightarrow> drains_ok ms rd
      | Some drain \<Rightarrow> fst (drain rd) = None \<and> drains_ok ms (snd (drain rd)))"

fun drop_all :: "Msg list \<Rightarrow> bufio_Reader \<Rightarrow> bufio_Reader" where
  "drop_all [] b = b"
| "drop_all (m # ms) b = drop_all ms (snd (discard b (nbytes m)))"

fun drops_ok :: "Msg list \<Rightarrow> bufio_Reader \<Rightarrow> bool" where
  "drops_ok [] b = True"
| "drops_ok (m # ms) b =
     (fst (discard b (nbytes m)) = None \<and> drops_ok ms (snd (discard b (nbytes m))))"

section \<open>Example values\<close>

text \<open>A stream of twelve bytes that ends cleanly.\<close>

definition ex_stream :: source where
  "ex_stream =
     \<lparr>pending = [1, 2, 3, 4, 5, 6, 7, 8, 9, 10, 11, 12], final = io_EOF, burst = []\<rparr>"



text \<open>
  A decoder in the middle of a cycle: a 16-byte buffer holding the first twelve bytes of
  the stream, eight more to come (the next two reads short, of three bytes and of one),
  and a dot over the first four.
\<close>

definition ex_decoder :: Decoder where
  "ex_decoder =
     \<lparr>MaxSize = - 1,
      br = \<lparr>b_buf = [1, 2, 3, 4, 5, 6, 7, 8, 9, 10, 11, 12, 0, 0, 0, 0],
            b_r = 0, b_w = 12, b_err = None,
            b_rd = \<lparr>pending = [13, 14, 15, 16, 17, 18, 19, 20], final = io_EOF,
                     burst = [3, 1]\<rparr>\<rparr>,
      start = 0, pos = 4, msg = [], err = None\<rparr>"

text \<open>The same decoder after a cycle that produced two messages, of four and six bytes.\<close>

definition ex_batch :: Decoder where
  "ex_batch =
     ex_decoder\<lparr>start := 10, pos := 10,
       msg := [\<lparr>nbytes = 4, reader = None\<rparr>, \<lparr>nbytes = 6, reader = None\<rparr>]\<rparr>"

text \<open>
  A streaming message of \<open>n\<close> bytes whose body cannot be drained: the connection is
  reset. One such message in the batch.
\<close>

definition ex_reset_drain :: "source \<Rightarrow> error option \<times> source" where
  "ex_reset_drain rd = (Some (IOError ''connection reset''), rd)"

definition ex_streaming :: "int \<Rightarrow> Msg" where
  "ex_streaming n = \<lparr>nbytes = n, reader = Some ex_reset_drain\<rparr>"

definition ex_failed_drain :: Decoder where
  "ex_failed_drain = ex_decoder\<lparr>start := 4, pos := 4, msg := [ex_streaming 4]\<rparr>"

text \<open>
  A batch whose message claims 25 bytes, more than the 20 the stream still has: the
  discard of its bytes meets the end of the stream.
\<close>

definition ex_overlong :: Decoder where
  "ex_overlong = ex_decoder\<lparr>start := 4, pos := 4, msg := [\<lparr>nbytes = 25, reader = None\<rparr>]\<rparr>"

text \<open>
  Modelled from the spec: fetchMessages, the parsing stage, is declared outside
  decoder.go. The spec has it build each message from the window with grow_dot and mark,
  the message's bytes being the dot, a borrowed view; this stand-in grows the dot to one
  frame of \<open>k\<close> bytes, marks it and returns it as the batch.
\<close>

definition ex_fetchFrame :: "int \<Rightarrow> Decoder \<Rightarrow> error option \<times> Decoder" where
  "ex_fetchFrame k s =
     (case growdot k s of
        Panic p \<Rightarrow> (Some (IOError p), s)
      | Done ((sl, Some e), s') \<Rightarrow> (Some e, s'\<lparr>err := Some e\<rparr>)
      | Done ((sl, None), s') \<Rightarrow> (None, (mark s')\<lparr>msg := [\<lparr>nbytes = k, reader = None\<rparr>]\<rparr>))"

section \<open>Wrap-around, fill and Peek\<close>

lemma wrap_id: "is_int x \<Longrightarrow> wrap x = x"
  by (simp add: is_int_def wrap_def minInt_def maxInt_def)

lemma mod_window_above:
  fixes h x :: int
  assumes "h \<le> x" and "x < 3 * h"
  shows "(x + h) mod (2 * h) - h = x - 2 * h"
proof -
  have "(x + h) mod (2 * h) = (x + h - 2 * h) mod (2 * h)"
    by (rule minus_mod_self2 [symmetric])
  also have "\<dots> = x + h - 2 * h"
    using assms by (intro mod_pos_pos_trivial) simp_all
  finally show ?thesis by simp
qed

lemma mod_window_below:
  fixes h x :: int
  assumes "- 3 * h \<le> x" and "x < - h"
  shows "(x + h) mod (2 * h) - h = x + 2 * h"
proof -
  have "(x + h) mod (2 * h) = (x + h + 2 * h) mod (2 * h)"
    by (rule mod_add_self2 [symmetric])
  also have "\<dots> = x + h + 2 * h"
    using assms by (intro mod_pos_pos_trivial) simp_all
  finally show ?thesis by simp
qed

lemma wrap_above: "maxInt < x \<Longrightarrow> x \<le> maxInt + 2 ^ 64 \<Longrightarrow> wrap x = x - 2 ^ 64"
  using mod_window_above [of "2 ^ 63" x] by (simp add: wrap_def maxInt_def)

lemma wrap_below: "x < minInt \<Longrightarrow> minInt - 2 ^ 64 \<le> x \<Longrightarrow> wrap x = x + 2 ^ 64"
  using mod_window_below [of "2 ^ 63" x] by (simp add: wrap_def minInt_def)

lemma take_min_length: "take (min (length xs) n) xs = take n xs"
  by (simp add: min_def)

lemma buffered_length: "reader_ok b \<Longrightarrow> int (length (buffered b)) = Buffered b"
  by (auto simp: reader_ok_def buffered_def Buffered_def)

lemma b_fill_fields:
  "b_r (b_fill b) = 0"
  "b_w (b_fill b)
     = (b_w b - b_r b) + length (take (read_size (length (b_buf b) - (b_w b - b_r b)) (b_rd b)) (pending (b_rd b)))"
  "pending (b_rd (b_fill b))
     = drop (read_size (length (b_buf b) - (b_w b - b_r b)) (b_rd b)) (pending (b_rd b))"
  "b_buf (b_fill b)
     = take (b_w b - b_r b) (take (b_w b - b_r b) (drop (b_r b) (b_buf b)) @ drop (b_w b - b_r b) (b_buf b))
       @ take (read_size (length (b_buf b) - (b_w b - b_r b)) (b_rd b)) (pending (b_rd b))
       @ drop ((b_w b - b_r b) + length (take (read_size (length (b_buf b) - (b_w b - b_r b)) (b_rd b)) (pending (b_rd b))))
           (take (b_w b - b_r b) (drop (b_r b) (b_buf b)) @ drop (b_w b - b_r b) (b_buf b))"
  by (simp_all add: b_fill_def src_Read_def Let_def)

lemma b_fill_buffered:
  assumes "reader_ok b"
  shows "buffered (b_fill b)
         = buffered b @ take (read_size (length (b_buf b) - (b_w b - b_r b)) (b_rd b)) (pending (b_rd b))"
proof -
  let ?n = "b_w b - b_r b"
  let ?xs = "take (read_size (length (b_buf b) - ?n) (b_rd b)) (pending (b_rd b))"
  from assms have len: "length (take ?n (drop (b_r b) (b_buf b))) = ?n"
    by (auto simp: reader_ok_def min_def)
  then have "b_buf (b_fill b) = take ?n (drop (b_r b) (b_buf b)) @ ?xs
      @ drop (?n + length ?xs) (take ?n (drop (b_r b) (b_buf b)) @ drop ?n (b_buf b))"
    by (simp only: b_fill_fields take_append) simp
  then have "take (?n + length ?xs) (b_buf (b_fill b)) = take ?n (drop (b_r b) (b_buf b)) @ ?xs"
    using len by (simp add: take_min_length)
  then show ?thesis
    by (simp add: buffered_def b_fill_fields(1,2))
qed

lemma b_fill_window: "reader_ok b \<Longrightarrow> window (b_fill b) = window b"
  by (simp add: window_def b_fill_buffered b_fill_fields(3))

lemma b_fill_length: "reader_ok b \<Longrightarrow> length (b_buf (b_fill b)) = length (b_buf b)"
  using read_size_le [of "length (b_buf b) - (b_w b - b_r b)" "b_rd b"]
  by (auto simp: b_fill_fields(4) reader_ok_def min_def)

lemma b_fill_ok: "reader_ok b \<Longrightarrow> reader_ok (b_fill b)"
  using b_fill_length [of b] read_size_le [of "length (b_buf b) - (b_w b - b_r b)" "b_rd b"]
  by (auto simp: reader_ok_def b_fill_fields(1,2) min_def)


lemma peek_loop_ok:
  "reader_ok b \<Longrightarrow>
     reader_ok (peek_loop n b) \<and> window (peek_loop n b) = window b
     \<and> length (b_buf (peek_loop n b)) = length (b_buf b)
     \<and> Buffered b \<le> Buffered (peek_loop n b)
     \<and> take (nat (Buffered b)) (buffered (peek_loop n b)) = buffered b"
proof (induction n b rule: peek_loop.induct)
  case (1 n b)
  show ?case
  proof (cases "Buffered b < n \<and> Buffered b < int (length (b_buf b)) \<and> b_err b = None")
    case True
    then have eq: "peek_loop n b = peek_loop n (b_fill b)"
      by (subst peek_loop.simps) simp
    have ok: "reader_ok (b_fill b)"
      using "1.prems" by (rule b_fill_ok)
    note IH = "1.IH" [OF True ok]
    have grow: "buffered (b_fill b)
        = buffered b @ take (read_size (length (b_buf b) - (b_w b - b_r b)) (b_rd b)) (pending (b_rd b))"
      using "1.prems" by (rule b_fill_buffered)
    have le: "Buffered b \<le> Buffered (b_fill b)"
      using buffered_length [OF "1.prems"] buffered_length [OF ok] grow by simp
    have lenb: "nat (Buffered b) = length (buffered b)"
      using buffered_length [OF "1.prems"] by simp
    have "take (nat (Buffered b)) (buffered (peek_loop n (b_fill b)))
          = take (nat (Buffered b)) (take (nat (Buffered (b_fill b))) (buffered (peek_loop n (b_fill b))))"
      using le by (simp add: min_def)
    also have "\<dots> = take (nat (Buffered b)) (buffered (b_fill b))"
      using IH by simp
    also have "\<dots> = buffered b"
      using grow lenb by simp
    finally show ?thesis
      using IH le eq b_fill_window [OF "1.prems"] b_fill_length [OF "1.prems"] by simp
  next
    case False
    then have "peek_loop n b = b"
      by (subst peek_loop.simps) auto
    then show ?thesis
      using "1.prems" buffered_length [OF "1.prems"] by simp
  qed
qed

lemma peek_loop_enough: "n \<le> Buffered b \<Longrightarrow> peek_loop n b = b"
  by (subst peek_loop.simps) simp


lemma Peek_within: "n \<le> Buffered b \<Longrightarrow> snd (Peek n b) = b"
  by (simp add: Peek_def peek_loop_enough Let_def)

lemma Peek_buffered:
  assumes "0 \<le> n" and "n \<le> Buffered b" and "reader_ok b"
  shows "Peek n b = ((Slice (b_r b) (nat n), None), b)"
proof -
  from assms(3) have "Buffered b \<le> int (length (b_buf b))"
    by (auto simp: reader_ok_def Buffered_def)
  with assms(1,2) show ?thesis
    by (simp add: Peek_def peek_loop_enough Let_def)
qed

lemma Peek_success:
  assumes "Peek n b = ((sl, None), b')" and "reader_ok b"
  shows "0 \<le> n" and "n \<le> Buffered b'" and "sl = Slice (b_r b') (nat n)"
    and "b' = peek_loop n b"
  using assms(1)
  by (auto simp: Peek_def Let_def readErr_def split: if_splits)

lemma Peek_preserves:
  assumes "reader_ok b"
  shows "reader_ok (snd (Peek n b))" and "window (snd (Peek n b)) = window b"
    and "length (b_buf (snd (Peek n b))) = length (b_buf b)"
    and "Buffered b \<le> Buffered (snd (Peek n b))"
    and "take (nat (Buffered b)) (buffered (snd (Peek n b))) = buffered b"
proof -
  have "snd (Peek n b) = b \<or> snd (Peek n b) = peek_loop n b
        \<or> snd (Peek n b) = (peek_loop n b)\<lparr>b_err := None\<rparr>"
    by (simp add: Peek_def Let_def readErr_def)
  moreover have "reader_ok ((peek_loop n b)\<lparr>b_err := None\<rparr>) = reader_ok (peek_loop n b)"
    "window ((peek_loop n b)\<lparr>b_err := None\<rparr>) = window (peek_loop n b)"
    "buffered ((peek_loop n b)\<lparr>b_err := None\<rparr>) = buffered (peek_loop n b)"
    "Buffered ((peek_loop n b)\<lparr>b_err := None\<rparr>) = Buffered (peek_loop n b)"
    by (simp_all add: reader_ok_def window_def buffered_def Buffered_def)
  ultimately show "reader_ok (snd (Peek n b))" and "window (snd (Peek n b)) = window b"
    and "length (b_buf (snd (Peek n b))) = length (b_buf b)"
    and "Buffered b \<le> Buffered (snd (Peek n b))"
    and "take (nat (Buffered b)) (buffered (snd (Peek n b))) = buffered b"
    using peek_loop_ok [OF assms, of n] assms buffered_length [OF assms] by auto
qed

lemma fill_overflow:
  assumes "is_int n" and "is_int (pos s)" and "maxInt < pos s + n"
  shows "fill n s = (Some errFillOverflow, s)"
proof -
  from assms have "is_int (maxInt - n)"
    by (simp add: is_int_def minInt_def maxInt_def)
  then have "wrap (maxInt - n) = maxInt - n"
    by (rule wrap_id)
  with assms(3) show ?thesis
    by (simp add: fill_def)
qed

lemma fill_no_overflow:
  assumes "is_int n" and "0 \<le> pos s" and "is_int (pos s)" and "\<not> wrap (maxInt - n) < pos s"
  shows "0 \<le> n" and "pos s + n \<le> maxInt" and "wrap (pos s + n) = pos s + n"
proof -
  show n: "0 \<le> n"
  proof (rule ccontr)
    assume "\<not> 0 \<le> n"
    with assms(1) have "wrap (maxInt - n) = maxInt - n - 2 ^ 64"
      by (intro wrap_above) (simp_all add: is_int_def minInt_def maxInt_def)
    with assms(1,2,4) show False
      by (simp add: is_int_def minInt_def maxInt_def)
  qed
  with assms(1) have "wrap (maxInt - n) = maxInt - n"
    by (intro wrap_id) (simp add: is_int_def minInt_def maxInt_def)
  with assms(4) show le: "pos s + n \<le> maxInt"
    by simp
  with n assms(2) show "wrap (pos s + n) = pos s + n"
    by (intro wrap_id) (simp add: is_int_def minInt_def maxInt_def)
qed

lemma fill_success:
  assumes "fill n s = (None, s')" and "is_int n" and "reader_ok (br s)"
    and "0 \<le> pos s" and "is_int (pos s)"
  shows "n \<le> buflen s'" and "0 \<le> n" and "pos s' = pos s" and "start s' = start s"
    and "pos s + n \<le> Buffered (br s')" and "br s' = snd (Peek (pos s + n) (br s))"
    and "msg s' = msg s" and "err s' = err s" and "MaxSize s' = MaxSize s"
proof -
  from assms(1) have no: "\<not> wrap (maxInt - n) < pos s"
    by (auto simp: fill_def split: if_splits)
  note nf = fill_no_overflow [OF assms(2,4,5) no]
  from assms(1) no nf(3) obtain sl where
    pk: "Peek (pos s + n) (br s) = ((sl, None), br s')" and s': "s' = s\<lparr>br := br s'\<rparr>"
    by (auto simp: fill_def split: prod.splits)
  from s' show "pos s' = pos s" "start s' = start s" "msg s' = msg s" "err s' = err s"
    "MaxSize s' = MaxSize s"
    by (metis (no_types) Decoder.select_convs Decoder.surjective Decoder.update_convs)+
  from pk show "br s' = snd (Peek (pos s + n) (br s))"
    by simp
  from Peek_success(2) [OF pk assms(3)] show le: "pos s + n \<le> Buffered (br s')" .
  show "0 \<le> n" by (rule nf(1))
  have "reader_ok (br s')"
    using Peek_preserves(1) [OF assms(3), of "pos s + n"] pk by simp
  then have "Buffered (br s') \<le> maxInt"
    by (auto simp: reader_ok_def Buffered_def)
  with le assms(4) nf(1) \<open>pos s' = pos s\<close> have "is_int (Buffered (br s') - pos s')"
    by (simp add: is_int_def minInt_def maxInt_def)
  then have "buflen s' = Buffered (br s') - pos s'"
    by (simp add: buflen_def wrap_id)
  with le \<open>pos s' = pos s\<close> show "n \<le> buflen s'"
    by simp
qed

section \<open>Construction, Reset and Err\<close>




text \<open>
  C10. Reset binds the decoder to the new stream, zeroes the cursor, empties the batch
  and clears the error; it keeps the buffer's array, with nothing buffered; and it sets
  \<open>MaxSize\<close> back to -1, whatever limit the caller had set.
\<close>

theorem Reset_discards_MaxSize:
  "MaxSize (Reset rd (s\<lparr>MaxSize := limit\<rparr>)) = - 1
   \<and> MaxSize (Reset rd s) = - 1
   \<and> b_rd (br (Reset rd s)) = rd
   \<and> start (Reset rd s) = 0 \<and> pos (Reset rd s) = 0
   \<and> msg (Reset rd s) = [] \<and> err (Reset rd s) = None
   \<and> b_buf (br (Reset rd s)) = b_buf (br s)
   \<and> Buffered (br (Reset rd s)) = 0"
  by (simp add: Reset_def b_Reset_def Buffered_def)

text \<open>
  C4. Err reports a stored io.EOF as no error and every other stored error as it is; so
  io.ErrUnexpectedEOF, the error of a stream cut inside a message, is reported.
\<close>

theorem Err_normalizes_EOF:
  "(err s = Some io_EOF \<longrightarrow> Err s = None)
   \<and> (err s \<noteq> Some io_EOF \<longrightarrow> Err s = err s)
   \<and> (err s = Some io_ErrUnexpectedEOF \<longrightarrow> Err s = Some io_ErrUnexpectedEOF)"
  by (simp add: Err_def)

theorem Err_normalizes_EOF_witness:
  "err ((NewDecoder 64 4096 (Plain ex_stream))\<lparr>err := Some io_EOF\<rparr>) = Some io_EOF
   \<and> Err ((NewDecoder 64 4096 (Plain ex_stream))\<lparr>err := Some io_EOF\<rparr>) = None
   \<and> err ((NewDecoder 64 4096 (Plain ex_stream))\<lparr>err := Some io_ErrUnexpectedEOF\<rparr>) \<noteq> Some io_EOF
   \<and> Err ((NewDecoder 64 4096 (Plain ex_stream))\<lparr>err := Some io_ErrUnexpectedEOF\<rparr>)
       = Some io_ErrUnexpectedEOF"
  using Err_normalizes_EOF [of "(NewDecoder 64 4096 (Plain ex_stream))\<lparr>err := Some io_EOF\<rparr>"]
        Err_normalizes_EOF [of "(NewDecoder 64 4096 (Plain ex_stream))\<lparr>err := Some io_ErrUnexpectedEOF\<rparr>"]
  by simp

section \<open>Filling the buffer\<close>

text \<open>
  C2. fill(n) checks the size before it reads: when \<open>pos + n\<close> exceeds the largest int
  it returns errFillOverflow and leaves the decoder, its buffer and the stream as they
  were, Peek not called; it has no panicking path (its result is an error or nil); and
  when it returns nil, at least \<open>n\<close> bytes are buffered past \<open>pos\<close>.
\<close>

theorem fill_checks_overflow:
  assumes "is_int n" and "is_int (pos s)" and "0 \<le> pos s" and "reader_ok (br s)"
  shows "(maxInt < pos s + n \<longrightarrow> fill n s = (Some errFillOverflow, s))
       \<and> (\<forall>s'. fill n s = (None, s') \<longrightarrow> n \<le> buflen s')"
  using assms fill_overflow [of n s] fill_success(1) [of n s] by blast

theorem fill_checks_overflow_witness:
  "is_int (maxInt - 3) \<and> is_int 10 \<and> is_int (pos ex_decoder) \<and> 0 \<le> pos ex_decoder
   \<and> reader_ok (br ex_decoder)
   \<and> maxInt < pos ex_decoder + (maxInt - 3)
   \<and> fill (maxInt - 3) ex_decoder = (Some errFillOverflow, ex_decoder)
   \<and> fst (fill 10 ex_decoder) = None
   \<and> 10 \<le> buflen (snd (fill 10 ex_decoder))"
proof -
  have h: "is_int (maxInt - 3)" "is_int 10" "is_int (pos ex_decoder)" "0 \<le> pos ex_decoder"
    "reader_ok (br ex_decoder)" "maxInt < pos ex_decoder + (maxInt - 3)"
    by (simp_all add: is_int_def minInt_def maxInt_def ex_decoder_def reader_ok_def)
  have ok: "fst (fill 10 ex_decoder) = None"
    by code_simp
  then have "fill 10 ex_decoder = (None, snd (fill 10 ex_decoder))"
    by (simp add: prod_eq_iff)
  with fill_checks_overflow [OF h(2,3,4,5)] have "10 \<le> buflen (snd (fill 10 ex_decoder))"
    by blast
  moreover from fill_checks_overflow [OF h(1,3,4,5)] h(6)
  have "fill (maxInt - 3) ex_decoder = (Some errFillOverflow, ex_decoder)"
    by blast
  ultimately show ?thesis
    using h ok by blast
qed

section \<open>The cursor\<close>

lemma is_int_wrap: "is_int (wrap x)"
proof -
  have "0 \<le> (x + 2 ^ 63) mod 2 ^ 64" and "(x + 2 ^ 63) mod 2 ^ 64 < (2 ^ 64 :: int)"
    by simp_all
  then show ?thesis
    by (simp add: is_int_def wrap_def minInt_def maxInt_def)
qed

lemma dot_ok_ranges:
  assumes "reader_ok (br s)" and "dot_ok s"
  shows "is_int (pos s)" and "is_int (start s)" and "dotlen s = pos s - start s"
    and "buflen s = Buffered (br s) - pos s" and "Buffered (br s) \<le> maxInt"
    and "Buffered (br s) \<le> int (length (b_buf (br s)))"
proof -
  from assms(1) show b: "Buffered (br s) \<le> maxInt"
    and "Buffered (br s) \<le> int (length (b_buf (br s)))"
    by (auto simp: reader_ok_def Buffered_def)
  with assms(2) show "is_int (pos s)" and "is_int (start s)"
    by (auto simp: dot_ok_def is_int_def minInt_def maxInt_def)
  from b assms(2) have "is_int (pos s - start s)" and "is_int (Buffered (br s) - pos s)"
    by (auto simp: dot_ok_def is_int_def minInt_def maxInt_def)
  then show "dotlen s = pos s - start s" and "buflen s = Buffered (br s) - pos s"
    by (simp_all add: dotlen_def buflen_def wrap_id)
qed

lemma dot_done:
  assumes "reader_ok (br s)" and "dot_ok s"
  shows "dot s = Done (Slice (b_r (br s) + nat (start s)) (nat (pos s) - nat (start s)))"
proof -
  from assms(2) have p: "0 \<le> pos s" "pos s \<le> Buffered (br s)" "0 \<le> start s" "start s \<le> pos s"
    by (simp_all add: dot_ok_def)
  from Peek_buffered [OF p(1,2) assms(1)] p show ?thesis
    by (simp add: dot_def)
qed

lemma dot_panics:
  assumes "\<not> dot_ok s"
  shows "\<exists>p. dot s = Panic p"
  using assms
  by (auto simp: dot_def dot_ok_def Peek_def Let_def readErr_def split: prod.splits option.splits)

lemma bytes_of_dot:
  assumes "reader_ok b" and "0 \<le> st" and "0 \<le> n" and "st + n \<le> Buffered b"
  shows "bytes_of b (Slice (b_r b + nat st) (nat n)) = take (nat n) (drop (nat st) (window b))"
    and "length (take (nat n) (drop (nat st) (window b))) = nat n"
proof -
  have len: "int (length (buffered b)) = Buffered b"
    using assms(1) by (rule buffered_length)
  have "take (nat n) (drop (nat st) (buffered b))
        = take (nat n) (drop (b_r b + nat st) (b_buf b))"
    using assms(2,3,4) by (simp add: buffered_def Buffered_def drop_take min_def add.commute)
  moreover have "take (nat n) (drop (nat st) (window b)) = take (nat n) (drop (nat st) (buffered b))"
    using len assms(2,3,4) by (simp add: window_def)
  ultimately show "bytes_of b (Slice (b_r b + nat st) (nat n)) = take (nat n) (drop (nat st) (window b))"
    by (simp add: bytes_of_def)
  show "length (take (nat n) (drop (nat st) (window b))) = nat n"
    using len assms(2,3,4) by (simp add: window_def)
qed


lemma fill_keeps_cursor:
  assumes "reader_ok (br s)"
  shows "start (snd (fill k s)) = start s" and "pos (snd (fill k s)) = pos s"
    and "reader_ok (br (snd (fill k s)))" and "window (br (snd (fill k s))) = window (br s)"
    and "Buffered (br s) \<le> Buffered (br (snd (fill k s)))"
    and "msg (snd (fill k s)) = msg s" and "err (snd (fill k s)) = err s"
    and "MaxSize (snd (fill k s)) = MaxSize s"
proof -
  have "snd (fill k s) = s \<or> snd (fill k s) = s\<lparr>br := snd (Peek (wrap (pos s + k)) (br s))\<rparr>"
    by (simp add: fill_def split: prod.splits)
  then show "start (snd (fill k s)) = start s" and "pos (snd (fill k s)) = pos s"
    and "reader_ok (br (snd (fill k s)))" and "window (br (snd (fill k s))) = window (br s)"
    and "Buffered (br s) \<le> Buffered (br (snd (fill k s)))"
    and "msg (snd (fill k s)) = msg s" and "err (snd (fill k s)) = err s"
    and "MaxSize (snd (fill k s)) = MaxSize s"
    using Peek_preserves [OF assms, of "wrap (pos s + k)"] assms by auto
qed

lemma fill_keeps_dot_ok:
  assumes "reader_ok (br s)" and "dot_ok s"
  shows "dot_ok (snd (fill k s))"
  using fill_keeps_cursor(1,2,5) [OF assms(1), of k] assms(2) by (simp add: dot_ok_def)

text \<open>What growdot does once fill has returned nil.\<close>

lemma growdot_after_fill:
  assumes ok: "reader_ok (br s)" and inv: "dot_ok s" and n: "is_int n"
    and f: "fill (wrap (n - dotlen s)) s = (None, s1)"
  shows "0 \<le> n - dotlen s" and "wrap (n - dotlen s) = n - dotlen s"
    and "growdot n s
         = Done ((Slice (b_r (br s1) + nat (start s)) (nat n), None), s1\<lparr>pos := start s + n\<rparr>)"
    and "start s + n \<le> Buffered (br s1)"
proof -
  note r = dot_ok_ranges [OF ok inv]
  from inv have st: "0 \<le> start s" "start s \<le> pos s"
    by (simp_all add: dot_ok_def)
  let ?k = "wrap (n - dotlen s)"
  note fs = fill_success [OF f is_int_wrap ok _ r(1)]
  have k0: "0 \<le> ?k" and le: "pos s + ?k \<le> Buffered (br s1)"
    and c: "pos s1 = pos s" "start s1 = start s" and bl: "?k \<le> buflen s1"
    using fs st by simp_all
  have ok1: "reader_ok (br s1)"
    using fill_keeps_cursor(3) [OF ok, of ?k] f by simp
  have inv1: "dot_ok s1"
    using fill_keeps_dot_ok [OF ok inv, of ?k] f by simp
  have b1: "Buffered (br s1) \<le> maxInt"
    using dot_ok_ranges(5) [OF ok1 inv1] .
  show eq: "?k = n - dotlen s"
  proof (cases "minInt \<le> n - dotlen s")
    case True
    with n r(3) st show ?thesis
      by (intro wrap_id) (simp add: is_int_def)
  next
    case False
    with n r(3) st r(1) have "?k = n - dotlen s + 2 ^ 64"
      by (intro wrap_below) (simp_all add: is_int_def minInt_def maxInt_def)
    with le b1 n r(3) st have False
      by (simp add: is_int_def minInt_def maxInt_def)
    then show ?thesis ..
  qed
  with k0 show "0 \<le> n - dotlen s"
    by simp
  from le eq r(3) show le': "start s + n \<le> Buffered (br s1)"
    by simp
  have d1: "dotlen s1 = dotlen s"
    using c by (simp add: dotlen_def)
  have "is_int (pos s1 + ?k)"
    using le b1 k0 c st by (simp add: is_int_def minInt_def maxInt_def)
  then have "wrap (pos s1 + ?k) = start s + n"
    using eq r(3) c by (simp add: wrap_id)
  with bl have adv: "advance ?k s1 = Done (s1\<lparr>pos := start s + n\<rparr>)"
    by (simp add: advance_def)
  let ?s2 = "s1\<lparr>pos := start s + n\<rparr>"
  have inv2: "dot_ok ?s2"
    using st le' k0 eq r(3) c by (simp add: dot_ok_def)
  have "dot ?s2 = Done (Slice (b_r (br s1) + nat (start s)) (nat (start s + n) - nat (start s)))"
    using dot_done [of ?s2] ok1 inv2 c by simp
  moreover have "nat (start s + n) - nat (start s) = nat n"
    using st k0 eq r(3) by simp
  ultimately show "growdot n s
         = Done ((Slice (b_r (br s1) + nat (start s)) (nat n), None), s1\<lparr>pos := start s + n\<rparr>)"
    using f adv d1 by (simp add: growdot_def)
qed


lemma growdot_returns:
  assumes ok: "reader_ok (br s)" and inv: "dot_ok s" and n: "is_int n"
  shows "\<exists>res s'. growdot n s = Done (res, s') \<and> dot_ok s' \<and> reader_ok (br s')"
proof (cases "fill (wrap (n - dotlen s)) s")
  case (Pair e s1)
  have s1: "s1 = snd (fill (wrap (n - dotlen s)) s)"
    using Pair by simp
  have ok1: "reader_ok (br s1)" and inv1: "dot_ok s1"
    unfolding s1 using fill_keeps_cursor(3) [OF ok] fill_keeps_dot_ok [OF ok inv] by simp_all
  show ?thesis
  proof (cases e)
    case None
    with Pair have f: "fill (wrap (n - dotlen s)) s = (None, s1)"
      by simp
    note g = growdot_after_fill [OF ok inv n f]
    have "start s1 = start s"
      unfolding s1 using fill_keeps_cursor(1) [OF ok] by simp
    with g(1,4) inv dot_ok_ranges(3) [OF ok inv] have "dot_ok (s1\<lparr>pos := start s + n\<rparr>)"
      by (simp add: dot_ok_def)
    with g(3) ok1 show ?thesis
      by simp
  next
    case (Some x)
    with Pair have "growdot n s = Done ((Slice 0 0, Some x), s1)"
      by (simp add: growdot_def)
    with ok1 inv1 show ?thesis
      by simp
  qed
qed

lemma growdot_success:
  assumes ok: "reader_ok (br s)" and inv: "dot_ok s" and n: "is_int n"
    and g: "growdot n s = Done ((sl, None), s')"
  shows "dot s' = Done sl" and "dotlen s' = n" and "0 \<le> n"
    and "bytes_of (br s') sl = take (nat n) (drop (nat (start s)) (window (br s)))"
    and "length (bytes_of (br s') sl) = nat n"
    and "window (br s') = window (br s)" and "start s' = start s"
proof -
  obtain e s1 where p: "fill (wrap (n - dotlen s)) s = (e, s1)"
    by (cases "fill (wrap (n - dotlen s)) s")
  have "e = None"
  proof (cases e)
    case (Some x)
    with p g show ?thesis by (simp add: growdot_def)
  qed simp
  with p have f: "fill (wrap (n - dotlen s)) s = (None, s1)"
    by simp
  have s1: "s1 = snd (fill (wrap (n - dotlen s)) s)"
    using f by simp
  have ok1: "reader_ok (br s1)" and st1: "start s1 = start s"
    and w1: "window (br s1) = window (br s)"
    unfolding s1 using fill_keeps_cursor [OF ok] by simp_all
  note a = growdot_after_fill [OF ok inv n f]
  from a(3) g have sl: "sl = Slice (b_r (br s1) + nat (start s)) (nat n)"
    and s': "s' = s1\<lparr>pos := start s + n\<rparr>"
    by simp_all
  from inv have st: "0 \<le> start s" "start s \<le> pos s"
    by (simp_all add: dot_ok_def)
  from a(1) dot_ok_ranges(3) [OF ok inv] st show n0: "0 \<le> n"
    by simp
  have inv': "dot_ok s'"
    using a(4) st n0 st1 by (simp add: s' dot_ok_def)
  have ok': "reader_ok (br s')"
    using ok1 by (simp add: s')
  have "nat (start s + n) - nat (start s) = nat n"
    using st n0 by simp
  then show "dot s' = Done sl"
    using dot_done [OF ok' inv'] st1 by (simp add: s' sl)
  show "dotlen s' = n"
    using dot_ok_ranges(3) [OF ok' inv'] st1 by (simp add: s')
  show "window (br s') = window (br s)" and "start s' = start s"
    using w1 st1 by (simp_all add: s')
  note b = bytes_of_dot [OF ok1 st(1) n0 a(4)]
  from b(1) w1 show "bytes_of (br s') sl = take (nat n) (drop (nat (start s)) (window (br s)))"
    by (simp add: s' sl)
  with b(2) w1 show "length (bytes_of (br s') sl) = nat n"
    by simp
qed

lemma mark_dot_empty:
  assumes "reader_ok (br s)" and "dot_ok s"
  shows "dot (mark s) = Done (Slice (b_r (br s) + nat (pos s)) 0)"
proof -
  have "reader_ok (br (mark s))" and "dot_ok (mark s)"
    using assms by (simp_all add: mark_def dot_ok_def)
  from dot_done [OF this] show ?thesis
    by (simp add: mark_def)
qed

lemma advance_in_bounds:
  assumes "reader_ok (br s)" and "dot_ok s" and "0 \<le> n" and "n \<le> buflen s"
  shows "advance n s = Done (s\<lparr>pos := pos s + n\<rparr>)" and "dot_ok (s\<lparr>pos := pos s + n\<rparr>)"
proof -
  note r = dot_ok_ranges [OF assms(1,2)]
  from assms(2) have st: "0 \<le> start s" "start s \<le> pos s"
    by (simp_all add: dot_ok_def)
  from assms(3,4) r(4,5) st have "is_int (pos s + n)"
    by (simp add: is_int_def minInt_def maxInt_def)
  with assms(4) show "advance n s = Done (s\<lparr>pos := pos s + n\<rparr>)"
    by (simp add: advance_def wrap_id)
  from assms(3,4) r(4) st show "dot_ok (s\<lparr>pos := pos s + n\<rparr>)"
    by (simp add: dot_ok_def)
qed

lemma shrinkdot_in_bounds:
  assumes "reader_ok (br s)" and "dot_ok s" and "0 \<le> n" and "n \<le> dotlen s"
  shows "shrinkdot n s = Done (s\<lparr>pos := pos s - n\<rparr>)" and "dot_ok (s\<lparr>pos := pos s - n\<rparr>)"
proof -
  note r = dot_ok_ranges [OF assms(1,2)]
  from assms(2) have st: "0 \<le> start s" "start s \<le> pos s" "pos s \<le> Buffered (br s)"
    by (simp_all add: dot_ok_def)
  from assms(3,4) r(1,3) st have "is_int (pos s - n)"
    by (simp add: is_int_def minInt_def maxInt_def)
  with assms(4) show "shrinkdot n s = Done (s\<lparr>pos := pos s - n\<rparr>)"
    by (simp add: shrinkdot_def wrap_id)
  from assms(3,4) r(3) st show "dot_ok (s\<lparr>pos := pos s - n\<rparr>)"
    by (simp add: dot_ok_def)
qed

text \<open>Unfolding the decoder on a concrete input.\<close>

lemmas decoder_eval =
  growdot_def fill_def advance_def shrinkdot_def dot_def dotlen_def buflen_def mark_def
  resetdot_def wrap_def maxInt_def minInt_def Peek_def peek_loop.simps b_fill_def src_Read_def
  read_size_def
  Buffered_def readErr_def Let_def

text \<open>
  C7. From a decoder whose cursor satisfies the invariant: mark followed by dot gives
  an empty span; and whenever growdot(n) succeeds, the span it returns is the one dot
  gives afterwards, dotlen is \<open>n\<close>, the span holds exactly \<open>n\<close> bytes, and these are the
  \<open>n\<close> bytes of the stream that follow the dot's start offset.
\<close>

theorem cursor_round_trip:
  assumes "reader_ok (br s)" and "dot_ok s" and "is_int n"
  shows "(\<exists>sl. dot (mark s) = Done sl \<and> bytes_of (br (mark s)) sl = [])
       \<and> (\<forall>sl s'. growdot n s = Done ((sl, None), s') \<longrightarrow>
              dot s' = Done sl \<and> dotlen s' = n \<and> length (bytes_of (br s') sl) = nat n
              \<and> bytes_of (br s') sl = take (nat n) (drop (nat (start s)) (window (br s))))"
proof -
  have "dot (mark s) = Done (Slice (b_r (br s) + nat (pos s)) 0)"
    using assms(1,2) by (rule mark_dot_empty)
  then have "\<exists>sl. dot (mark s) = Done sl \<and> bytes_of (br (mark s)) sl = []"
    by (simp add: bytes_of_def)
  then show ?thesis
    using growdot_success(1,2,4,5) [OF assms] by blast
qed

theorem cursor_round_trip_witness:
  "reader_ok (br ex_decoder) \<and> dot_ok ex_decoder \<and> is_int 16
   \<and> growdot 16 ex_decoder = Done ((Slice 0 16, None), snd (fill 12 ex_decoder)\<lparr>pos := 16\<rparr>)
   \<and> dotlen (snd (fill 12 ex_decoder)\<lparr>pos := 16\<rparr>) = 16
   \<and> bytes_of (br (snd (fill 12 ex_decoder)\<lparr>pos := 16\<rparr>)) (Slice 0 16)
       = [1, 2, 3, 4, 5, 6, 7, 8, 9, 10, 11, 12, 13, 14, 15, 16]
   \<and> (\<exists>sl. dot (mark ex_decoder) = Done sl \<and> bytes_of (br (mark ex_decoder)) sl = [])"
proof -
  have h: "reader_ok (br ex_decoder)" "dot_ok ex_decoder" "is_int 16"
    by (simp_all add: is_int_def minInt_def maxInt_def ex_decoder_def reader_ok_def dot_ok_def
        Buffered_def)
  have g: "growdot 16 ex_decoder = Done ((Slice 0 16, None), snd (fill 12 ex_decoder)\<lparr>pos := 16\<rparr>)"
    by (simp add: ex_decoder_def decoder_eval)
  have w: "take (nat 16) (drop (nat (start ex_decoder)) (window (br ex_decoder)))
      = [1, 2, 3, 4, 5, 6, 7, 8, 9, 10, 11, 12, 13, 14, 15, 16]"
    by (simp add: ex_decoder_def window_def buffered_def)
  from cursor_round_trip [OF h] g w show ?thesis
    using h by metis
qed


lemma panics_simps: "panics (Panic p) = True" "panics (Done y) = False"
  by (simp_all add: panics_def)

text \<open>
  C6. From a decoder whose cursor satisfies \<open>0 \<le> start \<le> pos \<le> buffered length\<close>, every
  cursor operation keeps the invariant or panics: resetdot and mark keep it; dot
  returns, and it panics on every decoder that breaks the invariant; advance(n) and
  shrinkdot(n), given a count (\<open>n \<ge> 0\<close>), panic when \<open>n\<close> exceeds buflen, respectively
  dotlen, and otherwise keep it; growdot keeps it whether it succeeds or returns an
  error. No panic comes from the stream: growdot, which is given the lengths read from
  the stream, never panics, whatever the length and the bytes; and whether advance,
  shrinkdot and dot panic is settled by the cursor, the count and the number of buffered
  bytes, the same whatever bytes the buffer and the stream hold.
\<close>

theorem cursor_operations_keep_invariant:
  assumes "reader_ok (br s)" and "dot_ok s" and "is_int n"
  shows "dot_ok (resetdot s) \<and> dot_ok (mark s)
       \<and> (\<exists>sl. dot s = Done sl)
       \<and> (\<not> dot_ok t \<longrightarrow> (\<exists>p. dot t = Panic p))
       \<and> (0 \<le> n \<longrightarrow>
            (buflen s < n \<longrightarrow> advance n s = Panic ''advance decoder out of bounds'')
            \<and> (n \<le> buflen s \<longrightarrow> (\<exists>s'. advance n s = Done s' \<and> dot_ok s')))
       \<and> (0 \<le> n \<longrightarrow>
            (dotlen s < n \<longrightarrow> shrinkdot n s = Panic ''shrink dot out of bounds'')
            \<and> (n \<le> dotlen s \<longrightarrow> (\<exists>s'. shrinkdot n s = Done s' \<and> dot_ok s')))
       \<and> (\<exists>res s'. growdot n s = Done (res, s') \<and> dot_ok s')
       \<and> (reader_ok b \<and> Buffered b = Buffered (br s) \<longrightarrow>
            \<not> panics (growdot n (s\<lparr>br := b\<rparr>))
            \<and> \<not> panics (dot (s\<lparr>br := b\<rparr>))
            \<and> panics (advance n (s\<lparr>br := b\<rparr>)) = panics (advance n s)
            \<and> panics (shrinkdot n (s\<lparr>br := b\<rparr>)) = panics (shrinkdot n s))"
proof -
  have "dot_ok (resetdot s)" and "dot_ok (mark s)"
    using assms(2) by (simp_all add: resetdot_def mark_def dot_ok_def Buffered_def)
  moreover have "\<exists>sl. dot s = Done sl"
    using dot_done [OF assms(1,2)] by simp
  moreover have "\<not> dot_ok t \<longrightarrow> (\<exists>p. dot t = Panic p)"
    using dot_panics [of t] by simp
  moreover have "buflen s < n \<longrightarrow> advance n s = Panic ''advance decoder out of bounds''"
    and "dotlen s < n \<longrightarrow> shrinkdot n s = Panic ''shrink dot out of bounds''"
    by (simp_all add: advance_def shrinkdot_def)
  moreover have "0 \<le> n \<longrightarrow> n \<le> buflen s \<longrightarrow> (\<exists>s'. advance n s = Done s' \<and> dot_ok s')"
    using advance_in_bounds [OF assms(1,2), of n] by simp
  moreover have "0 \<le> n \<longrightarrow> n \<le> dotlen s \<longrightarrow> (\<exists>s'. shrinkdot n s = Done s' \<and> dot_ok s')"
    using shrinkdot_in_bounds [OF assms(1,2), of n] by simp
  moreover have "\<exists>res s'. growdot n s = Done (res, s') \<and> dot_ok s'"
    using growdot_returns [OF assms] by blast
  moreover have "reader_ok b \<and> Buffered b = Buffered (br s) \<longrightarrow>
            \<not> panics (growdot n (s\<lparr>br := b\<rparr>))
            \<and> \<not> panics (dot (s\<lparr>br := b\<rparr>))
            \<and> panics (advance n (s\<lparr>br := b\<rparr>)) = panics (advance n s)
            \<and> panics (shrinkdot n (s\<lparr>br := b\<rparr>)) = panics (shrinkdot n s)"
  proof
    assume b: "reader_ok b \<and> Buffered b = Buffered (br s)"
    then have ok: "reader_ok (br (s\<lparr>br := b\<rparr>))" and inv: "dot_ok (s\<lparr>br := b\<rparr>)"
      using assms(2) by (simp_all add: dot_ok_def)
    from growdot_returns [OF ok inv assms(3)] have "\<not> panics (growdot n (s\<lparr>br := b\<rparr>))"
      by (auto simp: panics_simps)
    moreover from dot_done [OF ok inv] have "\<not> panics (dot (s\<lparr>br := b\<rparr>))"
      by (simp add: panics_simps)
    moreover from b have "panics (advance n (s\<lparr>br := b\<rparr>)) = panics (advance n s)"
      and "panics (shrinkdot n (s\<lparr>br := b\<rparr>)) = panics (shrinkdot n s)"
      by (simp_all add: advance_def shrinkdot_def buflen_def dotlen_def panics_simps)
    ultimately show "\<not> panics (growdot n (s\<lparr>br := b\<rparr>))
            \<and> \<not> panics (dot (s\<lparr>br := b\<rparr>))
            \<and> panics (advance n (s\<lparr>br := b\<rparr>)) = panics (advance n s)
            \<and> panics (shrinkdot n (s\<lparr>br := b\<rparr>)) = panics (shrinkdot n s)"
      by simp
  qed
  ultimately show ?thesis
    by blast
qed

theorem cursor_operations_keep_invariant_witness:
  "reader_ok (br ex_decoder) \<and> dot_ok ex_decoder \<and> is_int 2 \<and> is_int 9
   \<and> (0::int) \<le> 2 \<and> (0::int) \<le> 9
   \<and> \<not> dot_ok (ex_decoder\<lparr>pos := 13\<rparr>) \<and> (\<exists>p. dot (ex_decoder\<lparr>pos := 13\<rparr>) = Panic p)
   \<and> buflen ex_decoder < 9 \<and> advance 9 ex_decoder = Panic ''advance decoder out of bounds''
   \<and> 2 \<le> buflen ex_decoder \<and> (\<exists>s'. advance 2 ex_decoder = Done s' \<and> dot_ok s')
   \<and> dotlen ex_decoder < 9 \<and> shrinkdot 9 ex_decoder = Panic ''shrink dot out of bounds''
   \<and> 2 \<le> dotlen ex_decoder \<and> (\<exists>s'. shrinkdot 2 ex_decoder = Done s' \<and> dot_ok s')
   \<and> (\<exists>res s'. growdot 9 ex_decoder = Done (res, s') \<and> dot_ok s')
   \<and> reader_ok ((br ex_decoder)\<lparr>b_rd := ex_stream\<rparr>)
   \<and> Buffered ((br ex_decoder)\<lparr>b_rd := ex_stream\<rparr>) = Buffered (br ex_decoder)
   \<and> \<not> panics (growdot 9 (ex_decoder\<lparr>br := (br ex_decoder)\<lparr>b_rd := ex_stream\<rparr>\<rparr>))
   \<and> \<not> panics (dot (ex_decoder\<lparr>br := (br ex_decoder)\<lparr>b_rd := ex_stream\<rparr>\<rparr>))
   \<and> panics (advance 9 (ex_decoder\<lparr>br := (br ex_decoder)\<lparr>b_rd := ex_stream\<rparr>\<rparr>))"
proof -
  have h: "reader_ok (br ex_decoder)" "dot_ok ex_decoder" "is_int 2" "is_int 9"
    "\<not> dot_ok (ex_decoder\<lparr>pos := 13\<rparr>)" "buflen ex_decoder < 9" "2 \<le> buflen ex_decoder"
    "dotlen ex_decoder < 9" "2 \<le> dotlen ex_decoder"
    "reader_ok ((br ex_decoder)\<lparr>b_rd := ex_stream\<rparr>)"
    "Buffered ((br ex_decoder)\<lparr>b_rd := ex_stream\<rparr>) = Buffered (br ex_decoder)"
    by (simp_all add: is_int_def minInt_def maxInt_def ex_decoder_def reader_ok_def dot_ok_def
        Buffered_def buflen_def dotlen_def wrap_def)
  have z: "(0::int) \<le> 2" "(0::int) \<le> 9"
    by simp_all
  note a = cursor_operations_keep_invariant
    [OF h(1,2,3), of "ex_decoder\<lparr>pos := 13\<rparr>" "(br ex_decoder)\<lparr>b_rd := ex_stream\<rparr>"]
  note b = cursor_operations_keep_invariant
    [OF h(1,2,4), of "ex_decoder\<lparr>pos := 13\<rparr>" "(br ex_decoder)\<lparr>b_rd := ex_stream\<rparr>"]
  have p: "panics (advance 9 ex_decoder)"
    using b h(6) z by (simp add: panics_simps)
  from a b h z p show ?thesis
    by blast
qed

text \<open>
  The counts of the theorem are not negative. advance and shrinkdot do not test for a
  negative count, which decoder.go never passes them: such a count moves \<open>pos\<close> without
  a panic.
\<close>

lemma negative_count_unchecked:
  "advance (- 5) ex_decoder = Done (ex_decoder\<lparr>pos := - 1\<rparr>)
   \<and> shrinkdot (- 9) ex_decoder = Done (ex_decoder\<lparr>pos := 13\<rparr>)"
  by (simp add: ex_decoder_def decoder_eval)

section \<open>Discarding\<close>

lemma b_Read_window:
  assumes "reader_ok b" and "b_Read k b = ((n, e), b')"
  shows "window b' = drop n (window b)" and "reader_ok b'"
proof -
  from assms(1) have rw: "b_r b \<le> b_w b" "b_w b \<le> length (b_buf b)"
    and mx: "int (length (b_buf b)) \<le> maxInt"
    by (simp_all add: reader_ok_def)
  consider (zero) "k = 0" | (empty) "0 < k" "b_w b \<le> b_r b" | (copy) "0 < k" "b_r b < b_w b"
    by linarith
  then have "window b' = drop n (window b) \<and> reader_ok b'"
  proof cases
    case zero
    with assms show ?thesis
      by (auto simp: b_Read_def readErr_def window_def buffered_def reader_ok_def
          split: if_splits)
  next
    case empty
    with rw have nobuf: "buffered b = []"
      by (simp add: buffered_def)
    show ?thesis
    proof (cases "b_err b \<noteq> None")
      case True
      with empty assms show ?thesis
        by (auto simp: b_Read_def readErr_def window_def buffered_def reader_ok_def)
    next
      case noerr: False
      show ?thesis
      proof (cases "length (b_buf b) \<le> k")
        case True
        with empty noerr assms(2)
        have "n = length (take (read_size k (b_rd b)) (pending (b_rd b)))"
          and "b' = b\<lparr>b_rd := (if pending (b_rd b) = [] then b_rd b
                  else (b_rd b)\<lparr>pending := drop (read_size k (b_rd b)) (pending (b_rd b)),
                                burst := tl (burst (b_rd b))\<rparr>)\<rparr>"
          by (auto simp: b_Read_def src_Read_def split: if_splits)
        then have "buffered b' = buffered b"
          and p': "pending (b_rd b') = drop (read_size k (b_rd b)) (pending (b_rd b))"
          and "reader_ok b' = reader_ok b"
          by (simp_all add: buffered_def reader_ok_def)
        moreover have "window b = pending (b_rd b)"
          using nobuf by (simp add: window_def)
        moreover have "drop n (pending (b_rd b))
            = drop (read_size k (b_rd b)) (pending (b_rd b))"
          using \<open>n = length (take (read_size k (b_rd b)) (pending (b_rd b)))\<close>
          by (simp add: min_def)
        ultimately show ?thesis
          using nobuf assms(1) by (simp add: window_def)
      next
        case False
        show ?thesis
        proof (cases "pending (b_rd b) = []")
          case True
          with False empty noerr assms(2) have "n = 0"
            and "b' = b\<lparr>b_buf := b_buf b, b_r := 0, b_w := 0, b_err := None, b_rd := b_rd b\<rparr>"
            by (auto simp: b_Read_def src_Read_def readErr_def)
          with nobuf rw mx show ?thesis
            by (simp add: window_def buffered_def reader_ok_def)
        next
          case more: False
          let ?rs = "read_size (length (b_buf b)) (b_rd b)"
          let ?xs = "take ?rs (pending (b_rd b))"
          from False have "b_buf b \<noteq> []"
            by auto
          then have "0 < ?rs"
            by (intro read_size_pos) simp
          with more have xs: "?xs \<noteq> []"
            by (cases "pending (b_rd b)") auto
          have rs: "?rs \<le> length (b_buf b)"
            by (rule read_size_le)
          from xs \<open>0 < ?rs\<close> more False empty noerr assms(2) have n: "n = min k (length ?xs)"
            and b': "b' = b\<lparr>b_buf := ?xs @ drop (length ?xs) (b_buf b), b_r := n,
                      b_w := length ?xs, b_err := None,
                      b_rd := (b_rd b)\<lparr>pending := drop ?rs (pending (b_rd b)),
                                      burst := tl (burst (b_rd b))\<rparr>\<rparr>"
            by (auto simp: b_Read_def src_Read_def Let_def)
          have "buffered b' = drop n ?xs"
            using n by (simp add: b' buffered_def)
          then have "window b' = drop n ?xs @ drop ?rs (pending (b_rd b))"
            by (simp add: window_def b')
          also have "\<dots> = drop n (?xs @ drop ?rs (pending (b_rd b)))"
          proof -
            have "n - length ?xs = 0"
              using n by (simp add: min_def)
            then show ?thesis
              by (simp only: drop_append drop_0)
          qed
          also have "\<dots> = drop n (window b)"
            using nobuf by (simp only: window_def append_take_drop_id append_Nil)
          finally have "window b' = drop n (window b)" .
          moreover have "reader_ok b'"
            using n mx rs by (simp add: b' reader_ok_def min_def)
          ultimately show ?thesis ..
        qed
      qed
    qed
  next
    case copy
    with assms(2) have n: "n = min k (b_w b - b_r b)" and b': "b' = b\<lparr>b_r := b_r b + n\<rparr>"
      by (auto simp: b_Read_def Let_def)
    have len: "length (buffered b) = b_w b - b_r b"
      using rw by (simp add: buffered_def)
    have "buffered b' = drop n (buffered b)"
      by (simp add: b' buffered_def drop_take add.commute)
    moreover have "n - length (buffered b) = 0"
      using n len by (simp add: min_def)
    ultimately have "window b' = drop n (window b)"
      by (simp add: window_def b')
    moreover have "reader_ok b'"
      using n rw mx by (auto simp: b' reader_ok_def min_def)
    ultimately show ?thesis ..
  qed
  then show "window b' = drop n (window b)" and "reader_ok b'"
    by simp_all
qed


lemma copy_discard_window:
  "reader_ok b \<Longrightarrow> copy_discard N written b = ((written', e), b') \<Longrightarrow>
     reader_ok b' \<and> written \<le> written' \<and> written' - written \<le> max N 0
     \<and> window b' = drop (nat (written' - written)) (window b)"
proof (induction N written b rule: copy_discard.induct)
  case (1 N written b)
  show ?case
  proof (cases "N \<le> 0")
    case True
    with "1.prems" show ?thesis
      by (simp add: copy_discard.simps)
  next
    case False
    obtain n x b1 where rd: "b_Read (nat (min 8192 N)) b = ((n, x), b1)"
      by (metis prod.collapse)
    note w = b_Read_window [OF "1.prems"(1) rd]
    show ?thesis
    proof (cases x)
      case None
      with False rd have le: "0 < n" "n \<le> nat (min 8192 N)"
        using b_Read_progress [of "nat (min 8192 N)" b n b1] by simp_all
      from False rd None "1.prems"(2)
      have rec: "copy_discard (N - int n) (written + int n) b1 = ((written', e), b')"
        by (simp add: copy_discard.simps [of N])
      have IH: "reader_ok b' \<and> written + int n \<le> written'
          \<and> written' - (written + int n) \<le> max (N - int n) 0
          \<and> window b' = drop (nat (written' - (written + int n))) (window b1)"
        using "1.IH" [OF False rd [symmetric] refl None w(2) rec] .
      then have "window b' = drop (nat (written' - (written + int n)) + n) (window b)"
        using w(1) by simp
      moreover have "nat (written' - (written + int n)) + n = nat (written' - written)"
      proof -
        from IH have d0: "0 \<le> written' - (written + int n)"
          by simp
        have "nat (written' - (written + int n) + int n)
              = nat (written' - (written + int n)) + nat (int n)"
          using d0 by (rule nat_add_distrib) simp
        moreover have "written' - (written + int n) + int n = written' - written"
          by simp
        ultimately show ?thesis
          by (simp only: nat_int)
      qed
      ultimately show ?thesis
        using IH le False by simp
    next
      case (Some y)
      with False rd "1.prems"(2) have "written' = written + int n" and "b' = b1"
        by (simp_all add: copy_discard.simps [of N])
      moreover have "n = 0"
        using rd Some
        by (auto simp: b_Read_def readErr_def src_Read_def Let_def split: if_splits prod.splits)
      ultimately show ?thesis
        using w by simp
    qed
  qed
qed

lemma discard_window:
  assumes "reader_ok b" and "discard b n = (None, b')"
  shows "window b' = drop (nat n) (window b)" and "reader_ok b'"
proof -
  obtain written e b1 where c: "copy_discard n 0 b = ((written, e), b1)"
    by (metis prod.collapse)
  note w = copy_discard_window [OF assms(1) c]
  from assms(2) c have b': "b' = b1" and cases: "written = n \<or> (n < written \<and> e = None)"
    by (auto simp: discard_def split: if_splits)
  from cases w have "nat written = nat n"
    by auto
  with w show "window b' = drop (nat n) (window b)" and "reader_ok b'"
    by (simp_all add: b')
qed

text \<open>Unfolding the buffered reader on a concrete input.\<close>

lemmas reader_eval =
  discard_def copy_discard.simps b_Read_def src_Read_def read_size_def readErr_def Buffered_def
  Let_def

lemma exhaust_loop_no_readers:
  "\<forall>m\<in>set ms. reader m = None \<Longrightarrow> exhaust_loop ms s = s"
  by (induction ms) simp_all

lemma stream_ok_Read:
  assumes "stream_ok b" and "b_Read k b = ((n, e), b')"
  shows "stream_ok b'"
  using assms
  by (auto simp: stream_ok_def b_Read_def readErr_def src_Read_def Let_def
      split: if_splits prod.splits)

lemma b_Read_at_most:
  assumes "reader_ok b" and "b_Read k b = ((n, e), b')"
  shows "n \<le> length (window b)"
proof -
  from b_Read_window(1) [OF assms] have "length (window b') = length (window b) - n"
    by simp
  show ?thesis
  proof (rule ccontr)
    assume "\<not> n \<le> length (window b)"
    then have big: "length (window b) < n" by simp
    from assms show False
      using big
      by (auto simp: b_Read_def readErr_def src_Read_def Let_def window_def buffered_def
          reader_ok_def min_def split: if_splits prod.splits)
  qed
qed


lemma b_Read_available:
  assumes "reader_ok b" and "stream_ok b" and "0 < k" and "window b \<noteq> []"
  shows "snd (fst (b_Read k b)) = None"
proof (cases "b_w b \<le> b_r b")
  case False
  with assms(3) show ?thesis
    by (simp add: b_Read_def Let_def)
next
  case True
  then have "buffered b = []"
    by (simp add: buffered_def)
  with assms(4) have p: "pending (b_rd b) \<noteq> []"
    by (simp add: window_def)
  with assms(2) have noerr: "b_err b = None"
    by (simp add: stream_ok_def)
  show ?thesis
  proof (cases "length (b_buf b) \<le> k")
    case large: True
    with True noerr p assms(3) show ?thesis
      by (simp add: b_Read_def src_Read_def)
  next
    case small: False
    then have "b_buf b \<noteq> []"
      by auto
    then have "0 < read_size (length (b_buf b)) (b_rd b)"
      by (intro read_size_pos) simp
    with p have "take (read_size (length (b_buf b)) (b_rd b)) (pending (b_rd b)) \<noteq> []"
      by (cases "pending (b_rd b)") auto
    with True noerr p small assms(3) show ?thesis
      by (simp add: b_Read_def src_Read_def Let_def)
  qed
qed

lemma copy_discard_available:
  "reader_ok b \<Longrightarrow> stream_ok b \<Longrightarrow> nat N \<le> length (window b) \<Longrightarrow>
     fst (copy_discard N written b) = (written + max N 0, None)"
proof (induction N written b rule: copy_discard.induct)
  case (1 N written b)
  show ?case
  proof (cases "N \<le> 0")
    case True
    then show ?thesis
      by (simp add: copy_discard.simps)
  next
    case False
    obtain n x b1 where rd: "b_Read (nat (min 8192 N)) b = ((n, x), b1)"
      by (metis prod.collapse)
    from False "1.prems"(3) have ne: "window b \<noteq> []"
      by auto
    from False have k: "0 < nat (min 8192 N)"
      by simp
    from b_Read_available [OF "1.prems"(1,2) k ne] rd have x: "x = None"
      by simp
    note w = b_Read_window [OF "1.prems"(1) rd]
    have so: "stream_ok b1"
      using stream_ok_Read [OF "1.prems"(2) rd] .
    from b_Read_progress [of "nat (min 8192 N)" b n b1] rd x k
    have n: "0 < n" "n \<le> nat (min 8192 N)"
      by simp_all
    have avail: "nat (N - int n) \<le> length (window b1)"
      using w(1) "1.prems"(3) n by simp
    have step: "copy_discard N written b = copy_discard (N - int n) (written + int n) b1"
      using False rd x by (simp add: copy_discard.simps [of N])
    have "fst (copy_discard (N - int n) (written + int n) b1)
          = (written + int n + max (N - int n) 0, None)"
      using "1.IH" [OF False rd [symmetric] refl x w(2) so avail] .
    moreover have "written + int n + max (N - int n) 0 = written + max N 0"
      using n False by simp
    ultimately show ?thesis
      by (simp add: step)
  qed
qed

lemma copy_discard_at_most:
  "reader_ok b \<Longrightarrow> copy_discard N written b = ((written', e), b') \<Longrightarrow>
     written' - written \<le> int (length (window b))"
proof (induction N written b rule: copy_discard.induct)
  case (1 N written b)
  show ?case
  proof (cases "N \<le> 0")
    case True
    with "1.prems" show ?thesis
      by (simp add: copy_discard.simps)
  next
    case False
    obtain n x b1 where rd: "b_Read (nat (min 8192 N)) b = ((n, x), b1)"
      by (metis prod.collapse)
    note w = b_Read_window [OF "1.prems"(1) rd]
    note m = b_Read_at_most [OF "1.prems"(1) rd]
    show ?thesis
    proof (cases x)
      case None
      from False rd None "1.prems"(2)
      have rec: "copy_discard (N - int n) (written + int n) b1 = ((written', e), b')"
        by (simp add: copy_discard.simps [of N])
      have "written' - (written + int n) \<le> int (length (window b1))"
        using "1.IH" [OF False rd [symmetric] refl None w(2) rec] .
      with w(1) m show ?thesis
        by simp
    next
      case (Some y)
      with False rd "1.prems"(2) have "written' = written + int n"
        by (simp add: copy_discard.simps [of N])
      with m show ?thesis
        by simp
    qed
  qed
qed

lemma copy_discard_stream_ok:
  "stream_ok b \<Longrightarrow> stream_ok (snd (copy_discard N written b))"
proof (induction N written b rule: copy_discard.induct)
  case (1 N written b)
  show ?case
  proof (cases "N \<le> 0")
    case True
    with "1.prems" show ?thesis
      by (simp add: copy_discard.simps)
  next
    case False
    obtain n x b1 where rd: "b_Read (nat (min 8192 N)) b = ((n, x), b1)"
      by (metis prod.collapse)
    have so: "stream_ok b1"
      using stream_ok_Read [OF "1.prems" rd] .
    show ?thesis
    proof (cases x)
      case None
      from "1.IH" [OF False rd [symmetric] refl None so] False rd None show ?thesis
        by (simp add: copy_discard.simps [of N])
    next
      case (Some y)
      with False rd so show ?thesis
        by (simp add: copy_discard.simps [of N])
    qed
  qed
qed

lemma discard_reader: "snd (discard b n) = snd (copy_discard n 0 b)"
  by (simp add: discard_def split: prod.splits)

text \<open>When a discard succeeds: exactly when the window still holds the bytes.\<close>

lemma discard_available:
  assumes "reader_ok b" and "stream_ok b" and "nat n \<le> length (window b)"
  shows "fst (discard b n) = None"
    and "window (snd (discard b n)) = drop (nat n) (window b)"
    and "reader_ok (snd (discard b n))" and "stream_ok (snd (discard b n))"
proof -
  obtain written e b1 where c: "copy_discard n 0 b = ((written, e), b1)"
    by (metis prod.collapse)
  from copy_discard_available [OF assms, of 0] c have we: "written = max n 0" "e = None"
    by simp_all
  then have d: "discard b n = (None, b1)"
    using c by (auto simp: discard_def)
  then show "fst (discard b n) = None"
    by simp
  from discard_window [OF assms(1) d] d
  show "window (snd (discard b n)) = drop (nat n) (window b)"
    and "reader_ok (snd (discard b n))"
    by simp_all
  show "stream_ok (snd (discard b n))"
    using copy_discard_stream_ok [OF assms(2)] by (simp add: discard_reader)
qed

lemma discard_short:
  assumes "reader_ok b" and "length (window b) < nat n"
  shows "fst (discard b n) \<noteq> None"
proof -
  obtain written e b1 where c: "copy_discard n 0 b = ((written, e), b1)"
    by (metis prod.collapse)
  from copy_discard_at_most [OF assms(1) c] assms(2) have "written < n"
    by simp
  with c show ?thesis
    by (auto simp: discard_def)
qed



lemma drop_loop_available:
  "reader_ok (br s) \<Longrightarrow> stream_ok (br s) \<Longrightarrow>
   (\<Sum>m\<leftarrow>ms. nat (nbytes m)) \<le> length (window (br s)) \<Longrightarrow>
     err (drop_loop ms s) = err s
     \<and> window (br (drop_loop ms s)) = drop (\<Sum>m\<leftarrow>ms. nat (nbytes m)) (window (br s))
     \<and> reader_ok (br (drop_loop ms s)) \<and> stream_ok (br (drop_loop ms s))"
proof (induction ms arbitrary: s)
  case Nil
  then show ?case by simp
next
  case (Cons m ms)
  have le: "nat (nbytes m) \<le> length (window (br s))"
    using Cons.prems(3) by simp
  note d = discard_available [OF Cons.prems(1,2) le]
  let ?b = "snd (discard (br s) (nbytes m))"
  from d(1) have step: "drop_loop (m # ms) s = drop_loop ms (s\<lparr>br := ?b\<rparr>)"
    by (cases "discard (br s) (nbytes m)") simp
  have rest: "(\<Sum>m\<leftarrow>ms. nat (nbytes m)) \<le> length (window (br (s\<lparr>br := ?b\<rparr>)))"
    using Cons.prems(3) d(2) by simp
  have "err (drop_loop ms (s\<lparr>br := ?b\<rparr>)) = err (s\<lparr>br := ?b\<rparr>)
     \<and> window (br (drop_loop ms (s\<lparr>br := ?b\<rparr>)))
         = drop (\<Sum>m\<leftarrow>ms. nat (nbytes m)) (window (br (s\<lparr>br := ?b\<rparr>)))
     \<and> reader_ok (br (drop_loop ms (s\<lparr>br := ?b\<rparr>)))
     \<and> stream_ok (br (drop_loop ms (s\<lparr>br := ?b\<rparr>)))"
    using d(3,4) rest by (intro Cons.IH) simp_all
  with d(2) show ?case
    unfolding step by (simp add: add.commute)
qed


text \<open>
  C5. From a reader whose window still holds the batch's bytes, dropMessages stores no
  error and removes, message after message in batch order, exactly each message's
  \<open>nbytes\<close> from the front of the window, whether the bytes are buffered or still to be
  read from the stream: the window then starts exactly the sum of the batch's byte
  lengths after where it started, and the batch is empty. A single discard succeeds, and
  removes exactly its \<open>n\<close> bytes, whenever the window holds \<open>n\<close> bytes; it fails when
  the window is shorter. For a batch without streaming bodies the window dropMessages
  leaves is the window of the decoder that Next hands to the fetch.
\<close>

theorem dropMessages_discards_batch:
  assumes "reader_ok (br s)" and "stream_ok (br s)"
    and "(\<Sum>m\<leftarrow>msg s. nat (nbytes m)) \<le> length (window (br s))"
  shows "err (dropMessages s) = err s
       \<and> window (br (dropMessages s)) = drop (\<Sum>m\<leftarrow>msg s. nat (nbytes m)) (window (br s))
       \<and> msg (dropMessages s) = []
       \<and> (nat n \<le> length (window (br s)) \<longrightarrow>
            fst (discard (br s) n) = None
            \<and> window (snd (discard (br s) n)) = drop (nat n) (window (br s)))
       \<and> (length (window (br s)) < nat n \<longrightarrow> fst (discard (br s) n) \<noteq> None)
       \<and> ((\<forall>m\<in>set (msg s). reader m = None) \<longrightarrow>
            window (br (resetdot (dropMessages (exhaustReaders s))))
            = drop (\<Sum>m\<leftarrow>msg s. nat (nbytes m)) (window (br s)))"
proof -
  note d = drop_loop_available [OF assms]
  have "err (dropMessages s) = err s"
    and w: "window (br (dropMessages s))
        = drop (\<Sum>m\<leftarrow>msg s. nat (nbytes m)) (window (br s))"
    and "msg (dropMessages s) = []"
    using d assms(3) by (simp_all add: dropMessages_def)
  moreover have "nat n \<le> length (window (br s)) \<longrightarrow>
            fst (discard (br s) n) = None
            \<and> window (snd (discard (br s) n)) = drop (nat n) (window (br s))"
    using discard_available(1,2) [OF assms(1,2), of n] by simp
  moreover have "length (window (br s)) < nat n \<longrightarrow> fst (discard (br s) n) \<noteq> None"
    using discard_short [OF assms(1), of n] by simp
  moreover have "(\<forall>m\<in>set (msg s). reader m = None) \<longrightarrow>
      resetdot (dropMessages (exhaustReaders s)) = resetdot (dropMessages s)"
    by (simp add: exhaustReaders_def exhaust_loop_no_readers)
  moreover have "br (resetdot (dropMessages s)) = br (dropMessages s)"
    by (simp add: resetdot_def)
  ultimately show ?thesis
    by simp
qed

theorem dropMessages_discards_batch_witness:
  "reader_ok (br ex_batch) \<and> stream_ok (br ex_batch)
   \<and> (\<Sum>m\<leftarrow>msg ex_batch. nat (nbytes m)) = 10
   \<and> window (br ex_batch) = [1, 2, 3, 4, 5, 6, 7, 8, 9, 10, 11, 12, 13, 14, 15, 16, 17, 18, 19, 20]
   \<and> err (dropMessages ex_batch) = err ex_batch
   \<and> window (br (dropMessages ex_batch)) = [11, 12, 13, 14, 15, 16, 17, 18, 19, 20]
   \<and> msg (dropMessages ex_batch) = []
   \<and> map (\<lambda>m. reader m = None) (msg ex_batch) = [True, True]
   \<and> window (br (resetdot (dropMessages (exhaustReaders ex_batch))))
       = [11, 12, 13, 14, 15, 16, 17, 18, 19, 20]
   \<and> fst (discard (br ex_batch) 15) = None
   \<and> window (snd (discard (br ex_batch) 15)) = [16, 17, 18, 19, 20]
   \<and> fst (discard (br ex_batch) 25) = Some io_EOF"
proof -
  have h: "reader_ok (br ex_batch)" "stream_ok (br ex_batch)"
    by (simp_all add: ex_batch_def ex_decoder_def reader_ok_def stream_ok_def maxInt_def)
  have w: "window (br ex_batch)
      = [1, 2, 3, 4, 5, 6, 7, 8, 9, 10, 11, 12, 13, 14, 15, 16, 17, 18, 19, 20]"
    by (simp add: ex_batch_def ex_decoder_def window_def buffered_def)
  have m: "(\<Sum>m\<leftarrow>msg ex_batch. nat (nbytes m)) = 10"
    "\<forall>m\<in>set (msg ex_batch). reader m = None"
    "map (\<lambda>m. reader m = None) (msg ex_batch) = [True, True]"
    by (simp_all add: ex_batch_def ex_decoder_def)
  have l: "(\<Sum>m\<leftarrow>msg ex_batch. nat (nbytes m)) \<le> length (window (br ex_batch))"
    by (simp add: m(1) w)
  have e: "fst (discard (br ex_batch) 25) = Some io_EOF"
    by (simp add: ex_batch_def ex_decoder_def reader_eval)
  from dropMessages_discards_batch [OF h l, of 15]
       dropMessages_discards_batch [OF h l, of 25] w m e
  show ?thesis
    using h by simp
qed

section \<open>The cycle\<close>

text \<open>Neither loop clears the error field.\<close>

lemma exhaust_loop_sticky: "err s \<noteq> None \<Longrightarrow> err (exhaust_loop ms s) \<noteq> None"
  by (induction ms arbitrary: s) (auto split: option.splits prod.splits)

lemma drop_loop_sticky: "err s \<noteq> None \<Longrightarrow> err (drop_loop ms s) \<noteq> None"
  by (induction ms arbitrary: s) (auto split: option.splits prod.splits)

text \<open>
  The two loops: when every drain, respectively every discard, returns without an error,
  and when one of them fails.
\<close>

lemma exhaust_loop_ok:
  "drains_ok ms (b_rd (br s)) \<Longrightarrow>
     exhaust_loop ms s = s\<lparr>br := (br s)\<lparr>b_rd := drain_all ms (b_rd (br s))\<rparr>\<rparr>"
proof (induction ms arbitrary: s)
  case Nil
  then show ?case by simp
next
  case (Cons m ms)
  show ?case
  proof (cases "reader m")
    case None
    with Cons show ?thesis by simp
  next
    case (Some d)
    obtain rd' where d: "d (b_rd (br s)) = (None, rd')"
      using Cons.prems Some by (cases "d (b_rd (br s))") simp
    with Cons.prems Some have "drains_ok ms (b_rd (br (s\<lparr>br := (br s)\<lparr>b_rd := rd'\<rparr>\<rparr>)))"
      by simp
    from Cons.IH [OF this] Some d show ?thesis
      by simp
  qed
qed

lemma exhaust_loop_fails:
  "drains_ok pre (b_rd (br s)) \<Longrightarrow> reader m = Some d \<Longrightarrow>
   fst (d (drain_all pre (b_rd (br s)))) \<noteq> None \<Longrightarrow>
     exhaust_loop (pre @ m # post) s
     = s\<lparr>br := (br s)\<lparr>b_rd := snd (d (drain_all pre (b_rd (br s))))\<rparr>,
         err := fst (d (drain_all pre (b_rd (br s))))\<rparr>"
proof (induction pre arbitrary: s)
  case Nil
  then show ?case
    by (cases "d (b_rd (br s))") auto
next
  case (Cons p pre)
  show ?case
  proof (cases "reader p")
    case None
    with Cons show ?thesis by simp
  next
    case (Some dp)
    obtain rd' where d: "dp (b_rd (br s)) = (None, rd')"
      using Cons.prems(1) Some by (cases "dp (b_rd (br s))") simp
    let ?s = "s\<lparr>br := (br s)\<lparr>b_rd := rd'\<rparr>\<rparr>"
    from Cons.prems Some d have "drains_ok pre (b_rd (br ?s))"
      and "fst (d (drain_all pre (b_rd (br ?s)))) \<noteq> None"
      by simp_all
    from Cons.IH [OF this(1) Cons.prems(2) this(2)] Some d show ?thesis
      by simp
  qed
qed

lemma exhaust_loop_not_ok:
  "\<not> drains_ok ms (b_rd (br s)) \<Longrightarrow> err (exhaust_loop ms s) \<noteq> None"
proof (induction ms arbitrary: s)
  case Nil
  then show ?case by simp
next
  case (Cons m ms)
  show ?case
  proof (cases "reader m")
    case None
    with Cons show ?thesis by simp
  next
    case (Some d)
    obtain e rd' where d: "d (b_rd (br s)) = (e, rd')"
      by (cases "d (b_rd (br s))")
    show ?thesis
    proof (cases e)
      case None
      with Cons.prems Some d have "\<not> drains_ok ms (b_rd (br (s\<lparr>br := (br s)\<lparr>b_rd := rd'\<rparr>\<rparr>)))"
        by simp
      from Cons.IH [OF this] Some d None show ?thesis
        by simp
    next
      case (Some x)
      with \<open>reader m = Some d\<close> d show ?thesis
        by simp
    qed
  qed
qed

lemma drop_loop_ok:
  "drops_ok ms (br s) \<Longrightarrow> drop_loop ms s = s\<lparr>br := drop_all ms (br s)\<rparr>"
proof (induction ms arbitrary: s)
  case Nil
  then show ?case by simp
next
  case (Cons m ms)
  obtain b' where d: "discard (br s) (nbytes m) = (None, b')"
    using Cons.prems by (cases "discard (br s) (nbytes m)") simp
  with Cons.prems have "drops_ok ms (br (s\<lparr>br := b'\<rparr>))"
    by simp
  from Cons.IH [OF this] d show ?case
    by simp
qed

lemma drop_loop_fails:
  "drops_ok pre (br s) \<Longrightarrow> fst (discard (drop_all pre (br s)) (nbytes m)) \<noteq> None \<Longrightarrow>
     drop_loop (pre @ m # post) s
     = s\<lparr>br := snd (discard (drop_all pre (br s)) (nbytes m)),
         err := fst (discard (drop_all pre (br s)) (nbytes m))\<rparr>"
proof (induction pre arbitrary: s)
  case Nil
  then show ?case
    by (cases "discard (br s) (nbytes m)") auto
next
  case (Cons p pre)
  obtain b' where d: "discard (br s) (nbytes p) = (None, b')"
    using Cons.prems(1) by (cases "discard (br s) (nbytes p)") simp
  let ?s = "s\<lparr>br := b'\<rparr>"
  from Cons.prems d have "drops_ok pre (br ?s)"
    and "fst (discard (drop_all pre (br ?s)) (nbytes m)) \<noteq> None"
    by simp_all
  from Cons.IH [OF this] d show ?case
    by simp
qed

lemma drop_loop_not_ok:
  "\<not> drops_ok ms (br s) \<Longrightarrow> err (drop_loop ms s) \<noteq> None"
proof (induction ms arbitrary: s)
  case Nil
  then show ?case by simp
next
  case (Cons m ms)
  obtain e b' where d: "discard (br s) (nbytes m) = (e, b')"
    by (cases "discard (br s) (nbytes m)")
  show ?case
  proof (cases e)
    case None
    with Cons.prems d have "\<not> drops_ok ms (br (s\<lparr>br := b'\<rparr>))"
      by simp
    from Cons.IH [OF this] d None show ?thesis
      by simp
  next
    case (Some x)
    with d show ?thesis
      by simp
  qed
qed


text \<open>Unfolding a cycle on a concrete input.\<close>

lemmas cycle_eval =
  Next_def exhaustReaders_def dropMessages_def ex_streaming_def ex_reset_drain_def
  ex_fetchFrame_def

lemmas ex_defs = ex_decoder_def ex_batch_def ex_failed_drain_def ex_overlong_def

text \<open>exhaustReaders changes nothing but the stream and the error field.\<close>

lemma exhaust_loop_frame:
  "msg (exhaust_loop ms s) = msg s \<and> start (exhaust_loop ms s) = start s
   \<and> pos (exhaust_loop ms s) = pos s \<and> MaxSize (exhaust_loop ms s) = MaxSize s
   \<and> b_buf (br (exhaust_loop ms s)) = b_buf (br s) \<and> b_r (br (exhaust_loop ms s)) = b_r (br s)
   \<and> b_w (br (exhaust_loop ms s)) = b_w (br s) \<and> b_err (br (exhaust_loop ms s)) = b_err (br s)"
  by (induction ms arbitrary: s) (auto split: option.splits prod.splits)



text \<open>
  C1, as the code has it. Next runs exhaustReaders, dropMessages and resetdot in this
  order and all three on every call: whatever failed before, the batch is then empty and
  the cursor at zero. Only fetchMessages depends on the error field: when the field is
  set after the three steps, Next returns false without fetching; when it is not, Next
  returns true exactly when fetchMessages returns nil. The field is unset after the
  three steps exactly when it was unset before and no drain and no discard has failed.
  exhaustReaders drains the readers in batch order, and the first drain that fails ends
  its loop: its error is stored and the readers after it are not drained. dropMessages
  discards the messages' bytes in batch order, and the first discard that fails ends its
  loop: its error is stored, the bytes of the messages after it are not discarded, and
  the batch is emptied all the same. When no drain and no discard fails, the decoder
  that fetchMessages receives is the one Next was called on with every reader of the
  batch drained, then every message of the batch discarded, the batch emptied and the
  cursor reset.
\<close>

theorem Next_steps_in_order:
  "msg (resetdot (dropMessages (exhaustReaders s))) = []
   \<and> start (resetdot (dropMessages (exhaustReaders s))) = 0
   \<and> pos (resetdot (dropMessages (exhaustReaders s))) = 0
   \<and> (err (resetdot (dropMessages (exhaustReaders s))) \<noteq> None \<longrightarrow>
        Next fetchMessages s = (False, resetdot (dropMessages (exhaustReaders s))))
   \<and> (err (resetdot (dropMessages (exhaustReaders s))) = None \<longrightarrow>
        Next fetchMessages s
        = (fst (fetchMessages (resetdot (dropMessages (exhaustReaders s)))) = None,
           snd (fetchMessages (resetdot (dropMessages (exhaustReaders s))))))
   \<and> (err (resetdot (dropMessages (exhaustReaders s))) = None
        \<longleftrightarrow> err s = None \<and> drains_ok (msg s) (b_rd (br s))
            \<and> drops_ok (msg s) ((br s)\<lparr>b_rd := drain_all (msg s) (b_rd (br s))\<rparr>))
   \<and> (drains_ok (msg s) (b_rd (br s)) \<longrightarrow>
        exhaustReaders s = s\<lparr>br := (br s)\<lparr>b_rd := drain_all (msg s) (b_rd (br s))\<rparr>\<rparr>)
   \<and> (msg s = pre @ m # post \<and> drains_ok pre (b_rd (br s)) \<and> reader m = Some d
        \<and> fst (d (drain_all pre (b_rd (br s)))) \<noteq> None \<longrightarrow>
        exhaustReaders s
        = s\<lparr>br := (br s)\<lparr>b_rd := snd (d (drain_all pre (b_rd (br s))))\<rparr>,
            err := fst (d (drain_all pre (b_rd (br s))))\<rparr>)
   \<and> (drops_ok (msg t) (br t) \<longrightarrow>
        dropMessages t = t\<lparr>br := drop_all (msg t) (br t), msg := []\<rparr>)
   \<and> (msg t = pre @ m # post \<and> drops_ok pre (br t)
        \<and> fst (discard (drop_all pre (br t)) (nbytes m)) \<noteq> None \<longrightarrow>
        dropMessages t
        = t\<lparr>br := snd (discard (drop_all pre (br t)) (nbytes m)),
             err := fst (discard (drop_all pre (br t)) (nbytes m)), msg := []\<rparr>)
   \<and> resetdot t = t\<lparr>start := 0, pos := 0\<rparr>
   \<and> (drains_ok (msg s) (b_rd (br s))
        \<and> drops_ok (msg s) ((br s)\<lparr>b_rd := drain_all (msg s) (b_rd (br s))\<rparr>) \<longrightarrow>
        resetdot (dropMessages (exhaustReaders s))
        = s\<lparr>br := drop_all (msg s) ((br s)\<lparr>b_rd := drain_all (msg s) (b_rd (br s))\<rparr>),
            start := 0, pos := 0, msg := []\<rparr>)"
proof -
  let ?s3 = "resetdot (dropMessages (exhaustReaders s))"
  let ?b1 = "(br s)\<lparr>b_rd := drain_all (msg s) (b_rd (br s))\<rparr>"
  have c1: "msg ?s3 = []" "start ?s3 = 0" "pos ?s3 = 0"
    by (simp_all add: resetdot_def dropMessages_def)
  have c2: "err ?s3 \<noteq> None \<longrightarrow> Next fetchMessages s = (False, ?s3)"
    by (simp add: Next_def Let_def)
  have c3: "err ?s3 = None \<longrightarrow>
      Next fetchMessages s = (fst (fetchMessages ?s3) = None, snd (fetchMessages ?s3))"
    by (auto simp: Next_def Let_def split: prod.splits option.splits)
  have c5: "drains_ok (msg s) (b_rd (br s)) \<longrightarrow> exhaustReaders s = s\<lparr>br := ?b1\<rparr>"
    by (simp add: exhaustReaders_def exhaust_loop_ok)
  have c6: "msg s = pre @ m # post \<and> drains_ok pre (b_rd (br s)) \<and> reader m = Some d
        \<and> fst (d (drain_all pre (b_rd (br s)))) \<noteq> None \<longrightarrow>
        exhaustReaders s
        = s\<lparr>br := (br s)\<lparr>b_rd := snd (d (drain_all pre (b_rd (br s))))\<rparr>,
            err := fst (d (drain_all pre (b_rd (br s))))\<rparr>"
    using exhaust_loop_fails [of pre s m d post] by (simp add: exhaustReaders_def)
  have c7: "drops_ok (msg t) (br t) \<longrightarrow>
        dropMessages t = t\<lparr>br := drop_all (msg t) (br t), msg := []\<rparr>"
    by (simp add: dropMessages_def drop_loop_ok)
  have c8: "msg t = pre @ m # post \<and> drops_ok pre (br t)
        \<and> fst (discard (drop_all pre (br t)) (nbytes m)) \<noteq> None \<longrightarrow>
        dropMessages t
        = t\<lparr>br := snd (discard (drop_all pre (br t)) (nbytes m)),
             err := fst (discard (drop_all pre (br t)) (nbytes m)), msg := []\<rparr>"
    using drop_loop_fails [of pre t m post] by (simp add: dropMessages_def)
  have c9: "resetdot t = t\<lparr>start := 0, pos := 0\<rparr>"
    by (simp add: resetdot_def)
  have c10: "drains_ok (msg s) (b_rd (br s)) \<and> drops_ok (msg s) ?b1 \<longrightarrow>
        ?s3 = s\<lparr>br := drop_all (msg s) ?b1, start := 0, pos := 0, msg := []\<rparr>"
  proof
    assume a: "drains_ok (msg s) (b_rd (br s)) \<and> drops_ok (msg s) ?b1"
    with c5 have x: "exhaustReaders s = s\<lparr>br := ?b1\<rparr>"
      by simp
    from a have "drops_ok (msg (s\<lparr>br := ?b1\<rparr>)) (br (s\<lparr>br := ?b1\<rparr>))"
      by simp
    then have "drop_loop (msg s) (s\<lparr>br := ?b1\<rparr>) = s\<lparr>br := drop_all (msg s) ?b1\<rparr>"
      using drop_loop_ok [of "msg s" "s\<lparr>br := ?b1\<rparr>"] by simp
    then show "?s3 = s\<lparr>br := drop_all (msg s) ?b1, start := 0, pos := 0, msg := []\<rparr>"
      by (simp add: x dropMessages_def resetdot_def)
  qed
  have e3: "err ?s3 = err (drop_loop (msg (exhaustReaders s)) (exhaustReaders s))"
    by (simp add: resetdot_def dropMessages_def)
  have m1: "msg (exhaustReaders s) = msg s"
    by (simp add: exhaustReaders_def exhaust_loop_frame)
  have c4: "err ?s3 = None
        \<longleftrightarrow> err s = None \<and> drains_ok (msg s) (b_rd (br s)) \<and> drops_ok (msg s) ?b1"
  proof
    assume n: "err ?s3 = None"
    have x1: "err (exhaustReaders s) = None"
    proof (rule ccontr)
      assume "err (exhaustReaders s) \<noteq> None"
      from drop_loop_sticky [OF this, of "msg (exhaustReaders s)"] n e3 show False
        by simp
    qed
    have x0: "err s = None"
    proof (rule ccontr)
      assume "err s \<noteq> None"
      from exhaust_loop_sticky [OF this, of "msg s"] x1 show False
        by (simp add: exhaustReaders_def)
    qed
    have dr: "drains_ok (msg s) (b_rd (br s))"
    proof (rule ccontr)
      assume "\<not> drains_ok (msg s) (b_rd (br s))"
      from exhaust_loop_not_ok [OF this] x1 show False
        by (simp add: exhaustReaders_def)
    qed
    with c5 have x: "exhaustReaders s = s\<lparr>br := ?b1\<rparr>"
      by simp
    have "drops_ok (msg s) ?b1"
    proof (rule ccontr)
      assume "\<not> drops_ok (msg s) ?b1"
      then have "\<not> drops_ok (msg s) (br (s\<lparr>br := ?b1\<rparr>))"
        by simp
      from drop_loop_not_ok [OF this] n e3 show False
        by (simp add: x)
    qed
    with x0 dr show "err s = None \<and> drains_ok (msg s) (b_rd (br s)) \<and> drops_ok (msg s) ?b1"
      by simp
  next
    assume a: "err s = None \<and> drains_ok (msg s) (b_rd (br s)) \<and> drops_ok (msg s) ?b1"
    with c10 show "err ?s3 = None"
      by simp
  qed
  from c1 c2 c3 c4 c5 c6 c7 c8 c9 c10 show ?thesis
    by blast
qed

theorem Next_steps_in_order_witness:
  "err ex_batch = None \<and> drains_ok (msg ex_batch) (b_rd (br ex_batch))
   \<and> drops_ok (msg ex_batch)
        ((br ex_batch)\<lparr>b_rd := drain_all (msg ex_batch) (b_rd (br ex_batch))\<rparr>)
   \<and> exhaustReaders ex_batch = ex_batch
   \<and> dropMessages ex_batch = ex_batch\<lparr>br := (br ex_batch)\<lparr>b_r := 10\<rparr>, msg := []\<rparr>
   \<and> resetdot (dropMessages (exhaustReaders ex_batch))
       = ex_batch\<lparr>br := (br ex_batch)\<lparr>b_r := 10\<rparr>, start := 0, pos := 0, msg := []\<rparr>
   \<and> err (resetdot (dropMessages (exhaustReaders ex_batch))) = None
   \<and> fst (Next (ex_fetchFrame 4) ex_batch) = True
   \<and> msg ex_failed_drain = [] @ ex_streaming 4 # []
   \<and> reader (ex_streaming 4) = Some ex_reset_drain
   \<and> fst (ex_reset_drain (drain_all [] (b_rd (br ex_failed_drain)))) \<noteq> None
   \<and> exhaustReaders ex_failed_drain
       = ex_failed_drain\<lparr>err := Some (IOError ''connection reset'')\<rparr>
   \<and> err (resetdot (dropMessages (exhaustReaders ex_failed_drain))) \<noteq> None
   \<and> Next (ex_fetchFrame 4) ex_failed_drain
       = (False, resetdot (dropMessages (exhaustReaders ex_failed_drain)))
   \<and> msg ex_overlong = [] @ \<lparr>nbytes = 25, reader = None\<rparr> # []
   \<and> fst (discard (drop_all [] (br ex_overlong)) 25) \<noteq> None
   \<and> dropMessages ex_overlong
       = ex_overlong\<lparr>br := snd (discard (br ex_overlong) 25), err := Some io_EOF, msg := []\<rparr>"
proof -
  note clean = Next_steps_in_order
    [of ex_batch "ex_fetchFrame 4" "[]" "ex_streaming 4" "[]" ex_reset_drain ex_batch]
  note drain = Next_steps_in_order
    [of ex_failed_drain "ex_fetchFrame 4" "[]" "ex_streaming 4" "[]" ex_reset_drain ex_overlong]
  note disc = Next_steps_in_order
    [of ex_failed_drain "ex_fetchFrame 4" "[]" "\<lparr>nbytes = 25, reader = None\<rparr>" "[]"
        ex_reset_drain ex_overlong]
  have h1: "err ex_batch = None" "drains_ok (msg ex_batch) (b_rd (br ex_batch))"
    "drain_all (msg ex_batch) (b_rd (br ex_batch)) = b_rd (br ex_batch)"
    by (simp_all add: ex_defs)
  have h2: "drops_ok (msg ex_batch) (br ex_batch)"
    "drop_all (msg ex_batch) (br ex_batch) = (br ex_batch)\<lparr>b_r := 10\<rparr>"
    by (simp_all add: ex_defs reader_eval)
  have h3: "(br ex_batch)\<lparr>b_rd := drain_all (msg ex_batch) (b_rd (br ex_batch))\<rparr> = br ex_batch"
    by (simp add: h1)
  have a1: "exhaustReaders ex_batch = ex_batch"
  proof -
    from clean have "drains_ok (msg ex_batch) (b_rd (br ex_batch)) \<longrightarrow>
        exhaustReaders ex_batch
        = ex_batch\<lparr>br := (br ex_batch)\<lparr>b_rd := drain_all (msg ex_batch) (b_rd (br ex_batch))\<rparr>\<rparr>"
      by blast
    with h1(2) show ?thesis
      by (simp add: h3)
  qed
  have a2: "dropMessages ex_batch = ex_batch\<lparr>br := (br ex_batch)\<lparr>b_r := 10\<rparr>, msg := []\<rparr>"
  proof -
    from clean have "drops_ok (msg ex_batch) (br ex_batch) \<longrightarrow>
        dropMessages ex_batch = ex_batch\<lparr>br := drop_all (msg ex_batch) (br ex_batch), msg := []\<rparr>"
      by blast
    with h2 show ?thesis
      by simp
  qed
  have a3: "resetdot (dropMessages (exhaustReaders ex_batch))
       = ex_batch\<lparr>br := (br ex_batch)\<lparr>b_r := 10\<rparr>, start := 0, pos := 0, msg := []\<rparr>"
  proof -
    from clean have "drains_ok (msg ex_batch) (b_rd (br ex_batch))
        \<and> drops_ok (msg ex_batch)
            ((br ex_batch)\<lparr>b_rd := drain_all (msg ex_batch) (b_rd (br ex_batch))\<rparr>) \<longrightarrow>
        resetdot (dropMessages (exhaustReaders ex_batch))
        = ex_batch\<lparr>br := drop_all (msg ex_batch)
              ((br ex_batch)\<lparr>b_rd := drain_all (msg ex_batch) (b_rd (br ex_batch))\<rparr>),
            start := 0, pos := 0, msg := []\<rparr>"
      by blast
    with h1(2) h2 show ?thesis
      by (simp add: h3)
  qed
  have a4: "err (resetdot (dropMessages (exhaustReaders ex_batch))) = None"
  proof -
    from clean have "err (resetdot (dropMessages (exhaustReaders ex_batch))) = None
        \<longleftrightarrow> err ex_batch = None \<and> drains_ok (msg ex_batch) (b_rd (br ex_batch))
            \<and> drops_ok (msg ex_batch)
                ((br ex_batch)\<lparr>b_rd := drain_all (msg ex_batch) (b_rd (br ex_batch))\<rparr>)"
      by blast
    with h1 h2 show ?thesis
      by (simp add: h3)
  qed
  have f: "fst (ex_fetchFrame 4 (resetdot (dropMessages (exhaustReaders ex_batch)))) = None"
    by (simp add: ex_defs cycle_eval decoder_eval reader_eval)
  have a5: "fst (Next (ex_fetchFrame 4) ex_batch) = True"
  proof -
    from clean have "err (resetdot (dropMessages (exhaustReaders ex_batch))) = None \<longrightarrow>
        Next (ex_fetchFrame 4) ex_batch
        = (fst (ex_fetchFrame 4 (resetdot (dropMessages (exhaustReaders ex_batch)))) = None,
           snd (ex_fetchFrame 4 (resetdot (dropMessages (exhaustReaders ex_batch)))))"
      by blast
    with a4 f show ?thesis
      by simp
  qed
  have h4: "msg ex_failed_drain = [] @ ex_streaming 4 # []"
    "reader (ex_streaming 4) = Some ex_reset_drain"
    "fst (ex_reset_drain (drain_all [] (b_rd (br ex_failed_drain)))) \<noteq> None"
    "drains_ok [] (b_rd (br ex_failed_drain))"
    by (simp_all add: ex_defs ex_streaming_def ex_reset_drain_def)
  have b1: "exhaustReaders ex_failed_drain
       = ex_failed_drain\<lparr>br := (br ex_failed_drain)\<lparr>b_rd :=
             snd (ex_reset_drain (drain_all [] (b_rd (br ex_failed_drain))))\<rparr>,
           err := fst (ex_reset_drain (drain_all [] (b_rd (br ex_failed_drain))))\<rparr>"
    using drain h4 by blast
  have b2: "exhaustReaders ex_failed_drain
       = ex_failed_drain\<lparr>err := Some (IOError ''connection reset'')\<rparr>"
    unfolding b1 by (simp add: ex_reset_drain_def)
  have b3: "err (resetdot (dropMessages (exhaustReaders ex_failed_drain))) \<noteq> None"
  proof -
    from drain have "err (resetdot (dropMessages (exhaustReaders ex_failed_drain))) = None
        \<longleftrightarrow> err ex_failed_drain = None
            \<and> drains_ok (msg ex_failed_drain) (b_rd (br ex_failed_drain))
            \<and> drops_ok (msg ex_failed_drain)
                ((br ex_failed_drain)\<lparr>b_rd :=
                   drain_all (msg ex_failed_drain) (b_rd (br ex_failed_drain))\<rparr>)"
      by blast
    moreover have "\<not> drains_ok (msg ex_failed_drain) (b_rd (br ex_failed_drain))"
      by (simp add: ex_defs ex_streaming_def ex_reset_drain_def)
    ultimately show ?thesis
      by simp
  qed
  have b4: "Next (ex_fetchFrame 4) ex_failed_drain
       = (False, resetdot (dropMessages (exhaustReaders ex_failed_drain)))"
    using drain b3 by blast
  have h5: "msg ex_overlong = [] @ \<lparr>nbytes = 25, reader = None\<rparr> # []"
    "drops_ok [] (br ex_overlong)"
    "fst (discard (drop_all [] (br ex_overlong)) 25) = Some io_EOF"
    by (simp_all add: ex_defs reader_eval)
  have c1: "dropMessages ex_overlong
       = ex_overlong\<lparr>br := snd (discard (br ex_overlong) 25), err := Some io_EOF, msg := []\<rparr>"
  proof -
    from disc have "msg ex_overlong = [] @ \<lparr>nbytes = 25, reader = None\<rparr> # []
        \<and> drops_ok [] (br ex_overlong)
        \<and> fst (discard (drop_all [] (br ex_overlong))
              (nbytes \<lparr>nbytes = 25, reader = None\<rparr>)) \<noteq> None \<longrightarrow>
        dropMessages ex_overlong
        = ex_overlong\<lparr>br := snd (discard (drop_all [] (br ex_overlong))
                                 (nbytes \<lparr>nbytes = 25, reader = None\<rparr>)),
             err := fst (discard (drop_all [] (br ex_overlong))
                                 (nbytes \<lparr>nbytes = 25, reader = None\<rparr>)), msg := []\<rparr>"
      by blast
    with h5 show ?thesis
      by simp
  qed
  from h1(1,2) h2(1) h3 a1 a2 a3 a4 a5 h4(1,2,3) b2 b3 b4 h5(1,3) c1 show ?thesis
    by simp
qed

text \<open>
  C1 as stated fails where it says that a failure short-circuits the steps that follow.
  The drain of the batch's reader fails, and Next still discards the message's four
  bytes from the window, empties the batch and resets the cursor; the error of the
  drain is the one the decoder keeps.
\<close>

theorem Next_short_circuit_counterexample:
  "err ex_failed_drain = None
   \<and> err (exhaustReaders ex_failed_drain) = Some (IOError ''connection reset'')
   \<and> window (br (exhaustReaders ex_failed_drain))
       = [1, 2, 3, 4, 5, 6, 7, 8, 9, 10, 11, 12, 13, 14, 15, 16, 17, 18, 19, 20]
   \<and> pos (exhaustReaders ex_failed_drain) = 4
   \<and> length (msg (exhaustReaders ex_failed_drain)) = 1
   \<and> fst (Next (ex_fetchFrame 4) ex_failed_drain) = False
   \<and> window (br (snd (Next (ex_fetchFrame 4) ex_failed_drain)))
       = [5, 6, 7, 8, 9, 10, 11, 12, 13, 14, 15, 16, 17, 18, 19, 20]
   \<and> pos (snd (Next (ex_fetchFrame 4) ex_failed_drain)) = 0
   \<and> msg (snd (Next (ex_fetchFrame 4) ex_failed_drain)) = []
   \<and> err (snd (Next (ex_fetchFrame 4) ex_failed_drain)) = Some (IOError ''connection reset'')"
  by (simp add: ex_defs cycle_eval decoder_eval reader_eval window_def buffered_def)



text \<open>
  C9. The span dot returns is a slice of the buffered reader's array, not a copy. The
  first message of a batch was the dot over the array's first four bytes, 1 to 4; after
  the next call of Next the same slice reads 11 to 14, the array having been refilled,
  and Messages gives the new batch.
\<close>

theorem stale_message_bytes_overwritten:
  "dot ex_decoder = Done (Slice 0 4)
   \<and> br ex_batch = br ex_decoder
   \<and> bytes_of (br ex_batch) (Slice 0 4) = [1, 2, 3, 4]
   \<and> fst (Next (ex_fetchFrame 4) ex_batch) = True
   \<and> bytes_of (br (snd (Next (ex_fetchFrame 4) ex_batch))) (Slice 0 4) = [11, 12, 13, 14]
   \<and> Messages (snd (Next (ex_fetchFrame 4) ex_batch)) = [\<lparr>nbytes = 4, reader = None\<rparr>]"
  by (simp add: ex_defs cycle_eval decoder_eval reader_eval bytes_of_def Messages_def)


end
